theory Spec2Isabelle
  imports Main "HOL-Library.AList"
begin

section \<open>Strings as Python sees them\<close>

text \<open>
  The program is \<^verbatim>\<open>profile_creator.py\<close>. A Python \<^verbatim>\<open>str\<close> is modelled as a
  \<^typ>\<open>string\<close>: its characters are the code points below 256. On these the classes
  below are Python's own, given by code point: \<^verbatim>\<open>str.isspace\<close> (the white space of
  \<^verbatim>\<open>strip\<close> and \<^verbatim>\<open>split\<close>), \<^verbatim>\<open>str.isdigit\<close> (the ten decimal digits and the
  superscripts 2, 3 and 1), \<^verbatim>\<open>str.isdecimal\<close> (the digits that \<^verbatim>\<open>int\<close> and \<^verbatim>\<open>\d\<close>
  accept), \<^verbatim>\<open>str.isalpha\<close>, \<^verbatim>\<open>str.isalnum\<close> and \<^verbatim>\<open>str.lower\<close>.
\<close>

definition isspace :: "char \<Rightarrow> bool" where
  "isspace c = (let n = of_char c :: nat
                in (9 \<le> n \<and> n \<le> 13) \<or> (28 \<le> n \<and> n \<le> 32) \<or> n = 133 \<or> n = 160)"

definition isdecimal :: "char \<Rightarrow> bool" where
  "isdecimal c = (let n = of_char c :: nat in 48 \<le> n \<and> n \<le> 57)"

definition isdigit :: "char \<Rightarrow> bool" where
  "isdigit c = (let n = of_char c :: nat
                in (48 \<le> n \<and> n \<le> 57) \<or> n = 178 \<or> n = 179 \<or> n = 185)"

definition isalpha :: "char \<Rightarrow> bool" where
  "isalpha c = (let n = of_char c :: nat
                in (65 \<le> n \<and> n \<le> 90) \<or> (97 \<le> n \<and> n \<le> 122)
                   \<or> n = 170 \<or> n = 181 \<or> n = 186
                   \<or> (192 \<le> n \<and> n \<le> 214) \<or> (216 \<le> n \<and> n \<le> 246) \<or> 248 \<le> n)"

definition isalnum :: "char \<Rightarrow> bool" where
  "isalnum c = (let n = of_char c :: nat
                in isalpha c \<or> isdigit c \<or> (188 \<le> n \<and> n \<le> 190))"

definition lower_char :: "char \<Rightarrow> char" where
  "lower_char c = (let n = of_char c :: nat
                   in if (65 \<le> n \<and> n \<le> 90) \<or> (192 \<le> n \<and> n \<le> 214) \<or> (216 \<le> n \<and> n \<le> 222)
                      then char_of (n + 32) else c)"

text \<open>\<^verbatim>\<open>s.lower()\<close>\<close>

definition lower :: "string \<Rightarrow> string" where
  "lower s = map lower_char s"

text \<open>\<^verbatim>\<open>s.strip()\<close>: white space is removed at both ends.\<close>

definition strip :: "string \<Rightarrow> string" where
  "strip s = rev (dropWhile isspace (rev (dropWhile isspace s)))"

text \<open>\<^verbatim>\<open>s.isdigit()\<close>: false on the empty string.\<close>

definition str_isdigit :: "string \<Rightarrow> bool" where
  "str_isdigit s = (s \<noteq> [] \<and> list_all isdigit s)"

text \<open>\<^verbatim>\<open>s.startswith(p)\<close> and \<^verbatim>\<open>sub in s\<close>\<close>

definition startswith :: "string \<Rightarrow> string \<Rightarrow> bool" where
  "startswith s p = (take (length p) s = p)"

fun contains :: "string \<Rightarrow> string \<Rightarrow> bool" where
  "contains [] sub = (sub = [])"
| "contains (c # cs) sub = (startswith (c # cs) sub \<or> contains cs sub)"

text \<open>
  \<^verbatim>\<open>s.replace(old, new)\<close>: the occurrences of \<open>old\<close> are found from the left and do not
  overlap. With an empty \<open>old\<close> Python puts \<open>new\<close> before every character and at the end.
\<close>

fun replace_from :: "string \<Rightarrow> string \<Rightarrow> string \<Rightarrow> string" where
  "replace_from old new [] = []"
| "replace_from old new (c # cs) =
     (if old \<noteq> [] \<and> startswith (c # cs) old
      then new @ replace_from old new (drop (length old) (c # cs))
      else c # replace_from old new cs)"

definition replace :: "string \<Rightarrow> string \<Rightarrow> string \<Rightarrow> string" where
  "replace s old new =
     (if old = [] then new @ concat (map (\<lambda>c. c # new) s) else replace_from old new s)"

text \<open>\<^verbatim>\<open>s.split(',')\<close>: split at every separator; the result is never empty.\<close>

fun split_char :: "char \<Rightarrow> string \<Rightarrow> string list" where
  "split_char sep [] = [[]]"
| "split_char sep (c # cs) =
     (if c = sep then [] # split_char sep cs
      else (case split_char sep cs of
              w # ws \<Rightarrow> (c # w) # ws
            | [] \<Rightarrow> [[c]]))"

text \<open>\<^verbatim>\<open>s.split()\<close>: the maximal runs of characters that are not white space.\<close>

function split_ws :: "string \<Rightarrow> string list" where
  "split_ws s =
     (let t = dropWhile isspace s
      in if t = [] then []
         else takeWhile (\<lambda>c. \<not> isspace c) t # split_ws (dropWhile (\<lambda>c. \<not> isspace c) t))"
  by pat_completeness auto
termination
proof (relation "measure length")
  show "wf (measure length)" by simp
next
  fix s t :: string
  assume t: "t = dropWhile isspace s" and ne: "t \<noteq> []"
  have "\<not> isspace (hd t)"
    using t ne hd_dropWhile by metis
  then have "length (dropWhile (\<lambda>c. \<not> isspace c) t) < length t"
    using ne by (cases t) (auto intro: le_imp_less_Suc length_dropWhile_le)
  also have "length t \<le> length s"
    using t by (simp add: length_dropWhile_le)
  finally show "(dropWhile (\<lambda>c. \<not> isspace c) t, s) \<in> measure length" by simp
qed

text \<open>\<^verbatim>\<open>sep.join(items)\<close>\<close>

fun join :: "string \<Rightarrow> string list \<Rightarrow> string" where
  "join sep [] = []"
| "join sep [x] = x"
| "join sep (x # y # ys) = x @ sep @ join sep (y # ys)"

subsection \<open>Exceptions\<close>

datatype error =
    ValueError
  | WaitTimeoutError
  | UnknownValueError
  | RequestError string
  | FileExistsError
  | IsADirectoryError
  | OtherError string

subsection \<open>\<^verbatim>\<open>int(s)\<close>\<close>

text \<open>
  Python's \<^verbatim>\<open>int\<close> on a string, base ten: the white space that \<^verbatim>\<open>int\<close> knows is
  dropped around the number (it does not know the separators \<^verbatim>\<open>\x1c\<close> to \<^verbatim>\<open>\x1f\<close>), one
  sign may lead, and single underscores may stand between decimal digits. Anything else
  raises \<^verbatim>\<open>ValueError\<close>, and so does a number of more than 4300 digits, the default
  limit of the interpreter for the conversion.
\<close>

definition int_space :: "char \<Rightarrow> bool" where
  "int_space c = (let n = of_char c :: nat
                  in (9 \<le> n \<and> n \<le> 13) \<or> n = 32 \<or> n = 133 \<or> n = 160)"

definition int_max_str_digits :: nat where
  "int_max_str_digits = 4300"

definition digit_val :: "char \<Rightarrow> int" where
  "digit_val c = int (of_char c) - 48"

definition digits_value :: "string \<Rightarrow> int" where
  "digits_value s = foldl (\<lambda>a c. 10 * a + digit_val c) 0 s"

fun int_body_ok :: "string \<Rightarrow> bool" where
  "int_body_ok [] = False"
| "int_body_ok [c] = isdecimal c"
| "int_body_ok (c # d # ds) =
     (isdecimal c \<and> (if d = CHR ''_'' then int_body_ok ds else int_body_ok (d # ds)))"

definition py_int :: "string \<Rightarrow> error + int" where
  "py_int s =
     (let t = rev (dropWhile int_space (rev (dropWhile int_space s)));
          (sign, body) = (case t of
                            c # r \<Rightarrow> if c = CHR ''+'' then (1, r)
                                     else if c = CHR ''-'' then (- 1, r)
                                     else (1, t)
                          | [] \<Rightarrow> (1, t));
          digits = filter (\<lambda>c. c \<noteq> CHR ''_'') body
      in if int_body_ok body \<and> length digits \<le> int_max_str_digits
         then Inr (sign * digits_value digits)
         else Inl ValueError)"

section \<open>Regular expressions\<close>

text \<open>
  The two patterns of the validator use character classes, concatenation, \<^verbatim>\<open>+\<close> and a
  counted repetition, between \<^verbatim>\<open>^\<close> and \<^verbatim>\<open>$\<close>. Whether \<^verbatim>\<open>re.match\<close> finds a match
  for such an anchored pattern is decided by the language of the expression; it is computed
  here with derivatives.
\<close>

datatype rexp =
    Zero
  | One
  | Sym "char \<Rightarrow> bool"
  | Alt rexp rexp
  | Seq rexp rexp
  | Star rexp

definition Plus :: "rexp \<Rightarrow> rexp" where
  "Plus r = Seq r (Star r)"

fun Rep :: "nat \<Rightarrow> rexp \<Rightarrow> rexp" where
  "Rep 0 r = One"
| "Rep (Suc n) r = Seq r (Rep n r)"

fun nullable :: "rexp \<Rightarrow> bool" where
  "nullable Zero = False"
| "nullable One = True"
| "nullable (Sym p) = False"
| "nullable (Alt r s) = (nullable r \<or> nullable s)"
| "nullable (Seq r s) = (nullable r \<and> nullable s)"
| "nullable (Star r) = True"

fun deriv :: "char \<Rightarrow> rexp \<Rightarrow> rexp" where
  "deriv c Zero = Zero"
| "deriv c One = Zero"
| "deriv c (Sym p) = (if p c then One else Zero)"
| "deriv c (Alt r s) = Alt (deriv c r) (deriv c s)"
| "deriv c (Seq r s) =
     (if nullable r then Alt (Seq (deriv c r) s) (deriv c s) else Seq (deriv c r) s)"
| "deriv c (Star r) = Seq (deriv c r) (Star r)"

fun matches :: "rexp \<Rightarrow> string \<Rightarrow> bool" where
  "matches r [] = nullable r"
| "matches r (c # cs) = matches (deriv c r) cs"

text \<open>
  \<^verbatim>\<open>re.match('^' + r + '$', s)\<close>: without the multi-line flag \<^verbatim>\<open>$\<close> matches at the end
  of the string and also just before a line feed that ends the string.
\<close>

definition re_match_anchored :: "rexp \<Rightarrow> string \<Rightarrow> bool" where
  "re_match_anchored r s =
     (matches r s \<or> (s \<noteq> [] \<and> last s = CHR 0x0A \<and> matches r (butlast s)))"

text \<open>\<^verbatim>\<open>\w\<close>, \<^verbatim>\<open>\d\<close> and the class \<^verbatim>\<open>[\w\.-]\<close>\<close>

definition isword :: "char \<Rightarrow> bool" where
  "isword c = (isalnum c \<or> c = CHR ''_'')"

definition word_dot_hyphen :: "char \<Rightarrow> bool" where
  "word_dot_hyphen c = (isword c \<or> c = CHR ''.'' \<or> c = CHR ''-'')"

text \<open>\<^verbatim>\<open>^[\w\.-]+@[\w\.-]+\.\w+$\<close>\<close>

definition email_re :: rexp where
  "email_re =
     Seq (Plus (Sym word_dot_hyphen))
       (Seq (Sym (\<lambda>c. c = CHR ''@''))
          (Seq (Plus (Sym word_dot_hyphen))
             (Seq (Sym (\<lambda>c. c = CHR ''.'')) (Plus (Sym isword)))))"

text \<open>\<^verbatim>\<open>^\d{10}$\<close>\<close>

definition phone_re :: rexp where
  "phone_re = Rep 10 (Sym isdecimal)"

section \<open>Field validator\<close>

text \<open>
  \<^verbatim>\<open>_validate_input\<close>: the dictionary of validators, looked up by the field type, with the
  always-true default of \<^verbatim>\<open>validators.get\<close>. The number validator calls \<^verbatim>\<open>int\<close>, which
  can raise, so a validator returns an \<^typ>\<open>error + bool\<close>.
\<close>

definition validators :: "(string \<times> (string \<Rightarrow> error + bool)) list" where
  "validators =
     [(''text'', \<lambda>x. Inr (length x \<ge> 2)),
      (''number'', \<lambda>x. if str_isdigit x
                        then (case py_int x of
                                Inl e \<Rightarrow> Inl e
                              | Inr n \<Rightarrow> Inr (0 \<le> n \<and> n \<le> 99))
                        else Inr False),
      (''email'', \<lambda>x. Inr (re_match_anchored email_re x)),
      (''phone'', \<lambda>x. Inr (re_match_anchored phone_re
                              (replace (replace x ''-'' '''') '' '' ''''))),
      (''list'', \<lambda>x. Inr (list_all (\<lambda>item. length (strip item) > 0)
                             (split_char CHR '','' x)))]"

definition validate_input :: "string \<Rightarrow> string \<Rightarrow> error + bool" where
  "validate_input field_type v =
     (if v = [] \<or> strip v = [] then Inr False
      else (case map_of validators field_type of
              Some f \<Rightarrow> f (strip v)
            | None \<Rightarrow> Inr True))"

section \<open>Text normalizer\<close>

text \<open>
  The three rewrites that \<^verbatim>\<open>get_voice_input\<close> applies to a transcript, chosen by a marker
  in the lower-cased prompt, in the order of the source's \<^verbatim>\<open>if\<close>/\<^verbatim>\<open>elif\<close> chain.
\<close>

definition normalize_age :: "string \<Rightarrow> string" where
  "normalize_age result =
     (let result = lower result;
          nums = filter isdigit result
      in if nums \<noteq> [] then nums else result)"

definition normalize_email :: "string \<Rightarrow> string" where
  "normalize_email result =
     (let result = lower result;
          result = replace result ''the rate'' '''';
          result = replace result '' at '' ''@'';
          result = replace result ''at rate'' ''@'';
          result = replace result '' dot '' ''.'';
          result = replace result ''dot'' ''.''
      in concat (split_ws result))"

definition normalize_skills :: "string \<Rightarrow> string" where
  "normalize_skills result =
     (let result = lower result;
          result = replace result '' and '' '', '';
          result = replace result '' comma '' '', ''
      in join '', '' (map strip (split_char CHR '','' result)))"

definition normalize_transcript :: "string \<Rightarrow> string \<Rightarrow> string" where
  "normalize_transcript prompt result =
     (if contains (lower prompt) ''age'' then normalize_age result
      else if contains (lower prompt) ''email'' then normalize_email result
      else if contains (lower prompt) ''skills'' then normalize_skills result
      else result)"

section \<open>Profile and questions\<close>

text \<open>
  The profile is a Python dictionary whose values are \<^verbatim>\<open>None\<close>, a string, an integer or
  a list of strings. Its keys keep their insertion order, so it is an association list;
  \<^verbatim>\<open>d[k] = v\<close> is \<^const>\<open>AList.update\<close>.
\<close>

datatype pyval = PNone | PStr string | PInt int | PList "string list"

type_synonym profile = "(string \<times> pyval) list"

definition initial_profile :: profile where
  "initial_profile =
     [(''name'', PNone), (''age'', PNone), (''email'', PNone), (''phone'', PNone),
      (''occupation'', PNone), (''skills'', PList []), (''education'', PNone),
      (''location'', PNone), (''created_at'', PNone)]"

definition questions :: "(string \<times> string \<times> string) list" where
  "questions =
     [(''name'', ''What is your full name?'', ''text''),
      (''age'', ''What is your age?'', ''number''),
      (''email'', ''What is your email address?'', ''email''),
      (''phone'', ''What is your phone number?'', ''phone''),
      (''occupation'', ''What is your current occupation?'', ''text''),
      (''skills'', ''What are your skills? (separate with and)'', ''list''),
      (''education'', ''What is your highest education level?'', ''text''),
      (''location'', ''Where are you located?'', ''text'')]"

section \<open>The world outside the program\<close>

text \<open>
  What the program reads and writes: the outcome of each listening attempt (a transcript
  or the exception raised by the speech library), the lines typed at the console, the
  clock reading taken at completion, and the file system. What it prints is not
  modelled. When a stream has no further element the program waits for input that never
  comes: the acquiring functions return \<open>None\<close>.
\<close>

datatype node = Dir | File string

record world =
  speech :: "(error + string) list"
  console :: "string list"
  now :: string
  files :: "string \<rightharpoonup> node"

section \<open>Input acquirer\<close>

definition get_text_input :: "string \<Rightarrow> world \<Rightarrow> (string \<times> world) option" where
  "get_text_input prompt w =
     (case console w of
        [] \<Rightarrow> None
      | l # ls \<Rightarrow> Some (strip l, w\<lparr>console := ls\<rparr>))"

text \<open>
  \<^verbatim>\<open>get_voice_input\<close>: the second argument counts the attempts that
  \<^verbatim>\<open>for attempt in range(retries)\<close> still has to run. The result is the string returned
  or an exception that the function does not handle.
\<close>

fun get_voice_input :: "string \<Rightarrow> nat \<Rightarrow> world \<Rightarrow> ((error + string) \<times> world) option" where
  "get_voice_input prompt 0 w =
     map_option (\<lambda>(a, w'). (Inr a, w')) (get_text_input prompt w)"
| "get_voice_input prompt (Suc n) w =
     (case speech w of
        [] \<Rightarrow> None
      | heard # rest \<Rightarrow>
          (let w1 = w\<lparr>speech := rest\<rparr>
           in case heard of
                Inr transcript \<Rightarrow>
                  (let result = normalize_transcript prompt transcript
                   in case console w1 of
                        [] \<Rightarrow> None
                      | l # ls \<Rightarrow>
                          if startswith (lower l) ''y''
                          then Some (Inr result, w1\<lparr>console := ls\<rparr>)
                          else get_voice_input prompt n (w1\<lparr>console := ls\<rparr>))
              | Inl WaitTimeoutError \<Rightarrow> get_voice_input prompt n w1
              | Inl UnknownValueError \<Rightarrow> get_voice_input prompt n w1
              | Inl (RequestError e) \<Rightarrow>
                  map_option (\<lambda>(a, w'). (Inr a, w')) (get_text_input prompt w1)
              | Inl e \<Rightarrow> Some (Inl e, w1)))"

section \<open>Record store\<close>

text \<open>
  \<^verbatim>\<open>json.dump(profile, f, indent=2, ensure_ascii=False)\<close> for the values a profile
  holds: one member per line, indented by two spaces, in the dictionary's order.
\<close>

definition hex_digit :: "nat \<Rightarrow> char" where
  "hex_digit n = ''0123456789abcdef'' ! (n mod 16)"

definition json_escape_char :: "char \<Rightarrow> string" where
  "json_escape_char c =
     (if c = CHR 0x22 then [CHR 0x5C, CHR 0x22]
      else if c = CHR 0x5C then [CHR 0x5C, CHR 0x5C]
      else if c = CHR 0x0A then [CHR 0x5C, CHR ''n'']
      else if c = CHR 0x0D then [CHR 0x5C, CHR ''r'']
      else if c = CHR 0x09 then [CHR 0x5C, CHR ''t'']
      else if c = CHR 0x08 then [CHR 0x5C, CHR ''b'']
      else if c = CHR 0x0C then [CHR 0x5C, CHR ''f'']
      else if (of_char c :: nat) < 32
      then [CHR 0x5C, CHR ''u'', CHR ''0'', CHR ''0'',
            hex_digit (of_char c div 16), hex_digit (of_char c)]
      else [c])"

definition json_string :: "string \<Rightarrow> string" where
  "json_string s = [CHR 0x22] @ concat (map json_escape_char s) @ [CHR 0x22]"

function str_of_nat :: "nat \<Rightarrow> string" where
  "str_of_nat n =
     (if n < 10 then [''0123456789'' ! n]
      else str_of_nat (n div 10) @ [''0123456789'' ! (n mod 10)])"
  by pat_completeness auto
termination
  by (relation "measure id") auto

definition str_of_int :: "int \<Rightarrow> string" where
  "str_of_int i = (if i < 0 then CHR ''-'' # str_of_nat (nat (- i)) else str_of_nat (nat i))"

definition json_value :: "pyval \<Rightarrow> string" where
  "json_value v =
     (case v of
        PNone \<Rightarrow> ''null''
      | PStr s \<Rightarrow> json_string s
      | PInt i \<Rightarrow> str_of_int i
      | PList xs \<Rightarrow>
          if xs = [] then ''[]''
          else ''['' @ [CHR 0x0A]
               @ join ('','' @ [CHR 0x0A]) (map (\<lambda>x. ''    '' @ json_string x) xs)
               @ [CHR 0x0A] @ ''  ]'')"

definition json_member :: "string \<times> pyval \<Rightarrow> string" where
  "json_member kv = ''  '' @ json_string (fst kv) @ '': '' @ json_value (snd kv)"

definition json_dumps :: "profile \<Rightarrow> string" where
  "json_dumps p =
     (if p = [] then ''{}''
      else ''{'' @ [CHR 0x0A] @ join ('','' @ [CHR 0x0A]) (map json_member p)
           @ [CHR 0x0A] @ ''}'')"

text \<open>
  \<^verbatim>\<open>save_profile\<close>: \<^verbatim>\<open>mkdir(exist_ok=True)\<close> raises when the name is taken by a file that
  is not a directory; \<^verbatim>\<open>open(filepath, 'w')\<close> raises when the path is a directory and
  otherwise replaces the content. The file name is a plain name, without a directory part.
\<close>

definition save_profile :: "profile \<Rightarrow> string \<Rightarrow> world \<Rightarrow> error + world" where
  "save_profile p filename w =
     (let output_dir = ''profiles''
      in case (case files w output_dir of
                 None \<Rightarrow> Inr (w\<lparr>files := (files w)(output_dir \<mapsto> Dir)\<rparr>)
               | Some Dir \<Rightarrow> Inr w
               | Some (File old) \<Rightarrow> Inl FileExistsError) of
           Inl e \<Rightarrow> Inl e
         | Inr w1 \<Rightarrow>
             (let filepath = output_dir @ ''/'' @ filename
              in case files w1 filepath of
                   Some Dir \<Rightarrow> Inl IsADirectoryError
                 | _ \<Rightarrow> Inr (w1\<lparr>files := (files w1)(filepath \<mapsto> File (json_dumps p))\<rparr>)))"

section \<open>Profile wizard\<close>

text \<open>The assignment to \<^verbatim>\<open>self.profile[field]\<close> after a valid answer.\<close>

definition store_answer :: "string \<Rightarrow> string \<Rightarrow> profile \<Rightarrow> error + profile" where
  "store_answer field answer p =
     (if field = ''skills''
      then Inr (AList.update field (PList (map strip (split_char CHR '','' answer))) p)
      else if field = ''age''
      then (case py_int answer of
              Inl e \<Rightarrow> Inl e
            | Inr n \<Rightarrow> Inr (AList.update field (PInt n) p))
      else Inr (AList.update field (PStr answer) p))"

definition acquire :: "bool \<Rightarrow> string \<Rightarrow> world \<Rightarrow> ((error + string) \<times> world) option" where
  "acquire use_voice question w =
     (if use_voice then get_voice_input question 3 w
      else map_option (\<lambda>(a, w'). (Inr a, w')) (get_text_input question w))"

text \<open>
  The state of \<^verbatim>\<open>create_profile\<close> inside its loops: the index of the question being
  asked, the profile and the world. To follow the assignments to \<^verbatim>\<open>self.profile\<close>, the
  state also keeps the values that this dictionary has held so far, the current one last.
\<close>

record wizard =
  qidx :: nat
  profile :: profile
  world :: world
  history :: "profile list"

text \<open>
  One pass through the body of \<^verbatim>\<open>while True\<close> for the question at \<open>qidx\<close>: the
  \<^verbatim>\<open>break\<close> is the step to the next index; an invalid answer and an exception caught
  by \<^verbatim>\<open>except Exception\<close> leave the index and the profile as they are.
\<close>

definition iteration :: "bool \<Rightarrow> wizard \<Rightarrow> wizard option" where
  "iteration use_voice s =
     (case questions ! qidx s of
        (field, question, field_type) \<Rightarrow>
          (case acquire use_voice question (world s) of
             None \<Rightarrow> None
           | Some (r, w') \<Rightarrow>
               Some (case r of
                       Inl e \<Rightarrow> s\<lparr>world := w'\<rparr>
                     | Inr answer \<Rightarrow>
                         (case validate_input field_type answer of
                            Inl e \<Rightarrow> s\<lparr>world := w'\<rparr>
                          | Inr False \<Rightarrow> s\<lparr>world := w'\<rparr>
                          | Inr True \<Rightarrow>
                              (case store_answer field answer (profile s) of
                                 Inl e \<Rightarrow> s\<lparr>world := w'\<rparr>
                               | Inr p' \<Rightarrow>
                                   \<lparr>qidx = Suc (qidx s), profile = p', world = w',
                                    history = history s @ [p']\<rparr>)))))"

definition wsize :: "world \<Rightarrow> nat" where
  "wsize w = length (speech w) + length (console w)"

text \<open>
  The two loops of \<^verbatim>\<open>create_profile\<close>. The result is the state in which every question
  is answered, or the state in which the program waits for input that never comes.
\<close>

function run_questions :: "bool \<Rightarrow> wizard \<Rightarrow> wizard" where
  "run_questions use_voice s =
     (if qidx s \<ge> length questions then s
      else (case iteration use_voice s of
              None \<Rightarrow> s
            | Some s' \<Rightarrow> run_questions use_voice s'))"
  by pat_completeness auto
termination
proof (relation "measure (\<lambda>(v, s). wsize (world s))")
  show "wf (measure (\<lambda>(v, s). wsize (world s)))" by simp
next
  fix use_voice :: bool and s s' :: wizard
  assume it: "iteration use_voice s = Some s'"
  have text_less: "wsize w' < wsize w" if "get_text_input q w = Some (a, w')" for q w a w'
    using that by (auto simp: get_text_input_def wsize_def split: list.splits)
  have voice_less: "wsize w' < wsize w" if "get_voice_input q n w = Some (r, w')" for q n w r w'
    using that
  proof (induction n arbitrary: w)
    case 0
    then show ?case by (auto dest: text_less)
  next
    case (Suc n)
    from Suc.prems obtain heard rest where sp: "speech w = heard # rest"
      by (cases "speech w") auto
    let ?w1 = "w\<lparr>speech := rest\<rparr>"
    have w1: "wsize ?w1 < wsize w" using sp by (simp add: wsize_def)
    show ?case
    proof (cases heard)
      case (Inr transcript)
      with Suc.prems sp obtain l ls where c: "console ?w1 = l # ls"
        by (cases "console w") (auto simp: Let_def)
      have w2: "wsize (?w1\<lparr>console := ls\<rparr>) < wsize w"
        using sp c by (simp add: wsize_def)
      show ?thesis
      proof (cases "startswith (lower l) ''y''")
        case True
        with Suc.prems sp Inr c w2 show ?thesis by (auto simp: Let_def)
      next
        case False
        with Suc.prems sp Inr c have "get_voice_input q n (?w1\<lparr>console := ls\<rparr>) = Some (r, w')"
          by (auto simp: Let_def)
        from Suc.IH[OF this] w2 show ?thesis by simp
      qed
    next
      case (Inl e)
      show ?thesis
      proof (cases e)
        case WaitTimeoutError
        with Suc.prems sp Inl have "get_voice_input q n ?w1 = Some (r, w')" by (simp add: Let_def)
        from Suc.IH[OF this] w1 show ?thesis by simp
      next
        case UnknownValueError
        with Suc.prems sp Inl have "get_voice_input q n ?w1 = Some (r, w')" by (simp add: Let_def)
        from Suc.IH[OF this] w1 show ?thesis by simp
      next
        case (RequestError m)
        with Suc.prems sp Inl obtain a where "get_text_input q ?w1 = Some (a, w')"
          by (auto simp: Let_def)
        from text_less[OF this] w1 show ?thesis by simp
      qed (use Suc.prems sp Inl w1 in \<open>auto simp: Let_def\<close>)
    qed
  qed
  from it have "wsize (world s') < wsize (world s)"
    by (auto simp: iteration_def acquire_def split: prod.splits option.splits sum.splits
          bool.splits if_splits dest: text_less voice_less)
  then show "((use_voice, s'), (use_voice, s)) \<in> measure (\<lambda>(v, s). wsize (world s))"
    by simp
qed

text \<open>
  \<^verbatim>\<open>create_profile\<close>, started on the profile that \<^verbatim>\<open>__init__\<close> builds. \<open>None\<close>: the
  session never completes. Otherwise the final state, with the exception that
  \<^verbatim>\<open>save_profile\<close> raised, if any.
\<close>

definition create_profile :: "world \<Rightarrow> (error option \<times> wizard) option" where
  "create_profile w =
     (case console w of
        [] \<Rightarrow> None
      | l # ls \<Rightarrow>
          (let use_voice = startswith (lower l) ''y'';
               s = run_questions use_voice
                     \<lparr>qidx = 0, profile = initial_profile, world = w\<lparr>console := ls\<rparr>,
                      history = [initial_profile]\<rparr>
           in if qidx s < length questions then None
              else (let p = AList.update ''created_at'' (PStr (now (world s))) (profile s);
                        s = s\<lparr>profile := p, history := history s @ [p]\<rparr>
                    in case save_profile p ''user_profile.json'' (world s) of
                         Inl e \<Rightarrow> Some (Some e, s)
                       | Inr w' \<Rightarrow> Some (None, s\<lparr>world := w'\<rparr>))))"

text \<open>The profile of a completed session, and one of its fields.\<close>

definition finished_profile :: "world \<Rightarrow> profile option" where
  "finished_profile w = map_option (profile \<circ> snd) (create_profile w)"

definition finished_field :: "string \<Rightarrow> world \<Rightarrow> pyval option" where
  "finished_field f w =
     (case finished_profile w of
        None \<Rightarrow> None
      | Some p \<Rightarrow> map_of p f)"

section \<open>Notions used in the statements\<close>

text \<open>The language of a regular expression, to say what the derivative matcher decides.\<close>

definition conc :: "string set \<Rightarrow> string set \<Rightarrow> string set" where
  "conc A B = {xs @ ys | xs ys. xs \<in> A \<and> ys \<in> B}"

inductive_set star :: "string set \<Rightarrow> string set" for A :: "string set" where
  star_nil: "[] \<in> star A"
| star_app: "xs \<in> A \<Longrightarrow> ys \<in> star A \<Longrightarrow> xs @ ys \<in> star A"

fun lang :: "rexp \<Rightarrow> string set" where
  "lang Zero = {}"
| "lang One = {[]}"
| "lang (Sym p) = {[c] | c. p c}"
| "lang (Alt r s) = lang r \<union> lang s"
| "lang (Seq r s) = conc (lang r) (lang s)"
| "lang (Star r) = star (lang r)"

text \<open>A string of exactly ten decimal digits, as \<^verbatim>\<open>\d{10}\<close> matches it.\<close>

definition ten_digits :: "string \<Rightarrow> bool" where
  "ten_digits t = (length t = 10 \<and> list_all isdecimal t)"

text \<open>
  The world \<open>u\<close> is the world \<open>w\<close> after the program has consumed some of the lines typed
  at the console and some of the outcomes of the listening attempts.
\<close>

definition later :: "world \<Rightarrow> world \<Rightarrow> bool" where
  "later w u = (\<exists>n m. u = w\<lparr>console := drop n (console w), speech := drop m (speech w)\<rparr>)"

text \<open>
  The profile \<open>p'\<close> comes from the profile \<open>p\<close> by the assignment that answers question
  \<open>j\<close> in the session started in the world \<open>w\<close>: the stored answer is one that the acquirer
  returned on input of this session, and it passed the validation of the question's kind.
\<close>

definition accepted :: "bool \<Rightarrow> world \<Rightarrow> nat \<Rightarrow> profile \<Rightarrow> profile \<Rightarrow> bool" where
  "accepted use_voice w j p p' =
     (case questions ! j of
        (f, q, k) \<Rightarrow>
          \<exists>a u u'. later w u \<and> acquire use_voice q u = Some (Inr a, u')
                    \<and> validate_input k a = Inr True \<and> store_answer f a p = Inr p')"

text \<open>
  The pattern of the specification, following its words: word or dot characters on each
  side of one \<^verbatim>\<open>@\<close>, then a dot before a final alphabetic suffix.
\<close>

definition word_dot :: "char \<Rightarrow> bool" where
  "word_dot c = (isword c \<or> c = CHR ''.'')"

definition spec_email_re :: rexp where
  "spec_email_re =
     Seq (Plus (Sym word_dot))
       (Seq (Sym (\<lambda>c. c = CHR ''@''))
          (Seq (Plus (Sym word_dot))
             (Seq (Sym (\<lambda>c. c = CHR ''.'')) (Plus (Sym isalpha)))))"

text \<open>
  The text-mode session of the specification's end-to-end example, with one rejected
  answer to the age question and the phone number typed with hyphens.
\<close>

definition jane_session :: world where
  "jane_session =
     \<lparr>speech = [],
      console = [''n'', ''Jane Doe'', ''twenty nine'', ''29'', ''jane@x.com'', ''555-123-4567'',
                 ''Engineer'', ''python, go'', ''BSc'', ''NYC''],
      now = ''2024-01-01T00:00:00'',
      files = Map.empty\<rparr>"

section \<open>Properties of the string operations\<close>

subsection \<open>Characters and trimming\<close>

lemma isdigit_lower_char: "isdigit (lower_char c) = isdigit c"
  by (auto simp: isdigit_def lower_char_def Let_def)

lemma lower_char_idem: "lower_char (lower_char c) = lower_char c"
  by (auto simp: lower_char_def Let_def)



lemma strip_Nil: "strip [] = []"
  by (simp add: strip_def)

lemma set_strip: "set (strip s) \<subseteq> set s"
proof -
  have "set (strip s) = set (dropWhile isspace (rev (dropWhile isspace s)))"
    by (simp add: strip_def)
  also have "\<dots> \<subseteq> set (rev (dropWhile isspace s))"
    by (rule set_dropWhileD[THEN subsetI]) 
  also have "\<dots> \<subseteq> set s"
    using set_dropWhileD by fastforce
  finally show ?thesis .
qed

lemma strip_no_space_ends:
  assumes "s \<noteq> []" "\<not> isspace (hd s)" "\<not> isspace (last s)"
  shows "strip s = s"
proof -
  from assms have a: "dropWhile isspace s = s" by (cases s) auto
  from assms have "rev s \<noteq> []" "\<not> isspace (hd (rev s))" by (auto simp: hd_rev)
  then have "dropWhile isspace (rev s) = rev s" by (cases "rev s") auto
  with a show ?thesis by (simp add: strip_def)
qed

lemma strip_prefix: "dropWhile isspace s = strip s @ rev (takeWhile isspace (rev (dropWhile isspace s)))"
proof -
  let ?t = "dropWhile isspace s"
  have "rev (rev ?t) = rev (takeWhile isspace (rev ?t) @ dropWhile isspace (rev ?t))"
    by (simp only: takeWhile_dropWhile_id)
  then show ?thesis
    by (simp only: rev_append rev_rev_ident strip_def)
qed

lemma strip_hd: "strip s \<noteq> [] \<Longrightarrow> \<not> isspace (hd (strip s))"
proof -
  assume ne: "strip s \<noteq> []"
  let ?t = "dropWhile isspace s"
  obtain r where t: "?t = strip s @ r" using strip_prefix by blast
  with ne have tne: "?t \<noteq> []" by (metis append_is_Nil_conv)
  then have h: "\<not> isspace (hd ?t)" by (metis hd_dropWhile)
  from t ne have "hd ?t = hd (strip s)" by (metis hd_append2)
  with h show ?thesis by simp
qed

lemma strip_last: "strip s \<noteq> [] \<Longrightarrow> \<not> isspace (last (strip s))"
proof -
  assume ne: "strip s \<noteq> []"
  let ?u = "dropWhile isspace (rev (dropWhile isspace s))"
  have eq: "strip s = rev ?u" by (simp add: strip_def)
  with ne have "?u \<noteq> []" by simp
  then have "\<not> isspace (hd ?u)" using hd_dropWhile by metis
  with eq ne show ?thesis by (simp add: last_rev)
qed

lemma strip_idem: "strip (strip s) = strip s"
proof (cases "strip s = []")
  case True
  then show ?thesis by (simp add: strip_Nil)
next
  case False
  then show ?thesis by (intro strip_no_space_ends strip_hd strip_last)
qed


subsection \<open>\<^verbatim>\<open>int\<close> on a string of digits\<close>

lemma int_body_ok_digits: "s \<noteq> [] \<Longrightarrow> list_all isdecimal s \<Longrightarrow> int_body_ok s"
proof (induction s rule: int_body_ok.induct)
  case (3 c d ds)
  then have "d \<noteq> CHR ''_''" by (auto simp: isdecimal_def)
  with 3 show ?case by simp
qed simp_all

lemma int_body_ok_chars: "int_body_ok s \<Longrightarrow> c \<in> set s \<Longrightarrow> isdecimal c \<or> c = CHR ''_''"
  by (induction s rule: int_body_ok.induct) (auto split: if_splits)

lemma filter_underscore_digits: "list_all isdecimal s \<Longrightarrow> filter (\<lambda>c. c \<noteq> CHR ''_'') s = s"
  by (induction s) (auto simp: isdecimal_def)

lemma digit_not_int_space: "isdigit c \<Longrightarrow> \<not> int_space c"
  by (auto simp: isdigit_def int_space_def Let_def)

lemma int_trim_digits:
  assumes "str_isdigit s"
  shows "rev (dropWhile int_space (rev (dropWhile int_space s))) = s"
proof -
  from assms have ne: "s \<noteq> []" and all: "\<forall>c \<in> set s. isdigit c"
    by (auto simp: str_isdigit_def list_all_iff)
  from ne all have h: "\<not> int_space (hd s)" and l: "\<not> int_space (last s)"
    by (auto dest: digit_not_int_space)
  from ne h have a: "dropWhile int_space s = s" by (cases s) auto
  from ne l have "rev s \<noteq> []" "\<not> int_space (hd (rev s))" by (auto simp: hd_rev)
  then have "dropWhile int_space (rev s) = rev s" by (cases "rev s") auto
  with a show ?thesis by simp
qed

lemma digit_no_sign: "isdigit c \<Longrightarrow> c \<noteq> CHR ''+'' \<and> c \<noteq> CHR ''-'' \<and> c \<noteq> CHR ''_''"
  by (auto simp: isdigit_def)

lemma py_int_isdigit:
  assumes "str_isdigit s"
  shows "py_int s = (if list_all isdecimal s \<and> length s \<le> int_max_str_digits
                    then Inr (digits_value s) else Inl ValueError)"
proof -
  from assms obtain c r where s: "s = c # r" and c: "isdigit c" and all: "list_all isdigit s"
    by (cases s) (auto simp: str_isdigit_def)
  from digit_no_sign[OF c] have sign: "c \<noteq> CHR ''+''" "c \<noteq> CHR ''-''" by simp_all
  have no_us: "filter (\<lambda>c. c \<noteq> CHR ''_'') s = s"
    using all by (induction s) (auto dest: digit_no_sign)
  have ok: "int_body_ok s \<longleftrightarrow> list_all isdecimal s"
  proof
    assume b: "int_body_ok s"
    have "isdecimal d" if d: "d \<in> set s" for d
    proof -
      from all d have "isdigit d" by (simp add: list_all_iff)
      then have "d \<noteq> CHR ''_''" using digit_no_sign by blast
      with int_body_ok_chars[OF b d] show ?thesis by simp
    qed
    then show "list_all isdecimal s" by (simp add: list_all_iff)
  next
    assume "list_all isdecimal s"
    with s show "int_body_ok s" by (intro int_body_ok_digits) auto
  qed
  have sb: "(case s of
               c # r \<Rightarrow> if c = CHR ''+'' then (1, r)
                        else if c = CHR ''-'' then (- 1, r)
                        else (1, s)
             | [] \<Rightarrow> (1, s)) = (1 :: int, s)"
    using s sign by simp
  have "py_int s = (if int_body_ok s \<and> length s \<le> int_max_str_digits
                    then Inr (digits_value s) else Inl ValueError)"
    by (simp add: py_int_def int_trim_digits[OF assms] sb no_us)
  with ok show ?thesis by simp
qed

lemma digit_val_nonneg: "isdecimal c \<Longrightarrow> 0 \<le> digit_val c"
  by (auto simp: isdecimal_def digit_val_def Let_def)

lemma foldl_digits_nonneg:
  "list_all isdecimal s \<Longrightarrow> 0 \<le> a \<Longrightarrow> 0 \<le> foldl (\<lambda>a c. 10 * a + digit_val c) a s"
proof (induction s arbitrary: a)
  case Nil
  then show ?case by simp
next
  case (Cons c s)
  then have c: "isdecimal c" and s: "list_all isdecimal s" by simp_all
  have "0 \<le> 10 * a + digit_val c"
    using Cons.prems(2) digit_val_nonneg[OF c] by simp
  from Cons.IH[OF s this] show ?case by simp
qed

lemma digits_value_nonneg: "list_all isdecimal s \<Longrightarrow> 0 \<le> digits_value s"
  unfolding digits_value_def by (rule foldl_digits_nonneg) simp_all

lemma validate_input_unfold:
  "validate_input k v =
     (if strip v = [] then Inr False
      else (case map_of validators k of Some f \<Rightarrow> f (strip v) | None \<Rightarrow> Inr True))"
  by (auto simp: validate_input_def strip_Nil)

lemma number_validator:
  "map_of validators ''number'' = Some (\<lambda>x. if str_isdigit x
                        then (case py_int x of
                                Inl e \<Rightarrow> Inl e
                              | Inr n \<Rightarrow> Inr (0 \<le> n \<and> n \<le> 99))
                        else Inr False)"
  by (simp add: validators_def)

lemma validate_number_eq:
  "validate_input ''number'' y =
     (if strip y \<noteq> [] \<and> list_all isdigit (strip y)
      then if list_all isdecimal (strip y) \<and> length (strip y) \<le> int_max_str_digits
           then Inr (0 \<le> digits_value (strip y) \<and> digits_value (strip y) \<le> 99)
           else Inl ValueError
      else Inr False)"
proof (cases "str_isdigit (strip y)")
  case True
  then have "strip y \<noteq> []" "list_all isdigit (strip y)" by (simp_all add: str_isdigit_def)
  with True show ?thesis
    by (simp add: validate_input_unfold number_validator py_int_isdigit digits_value_nonneg)
next
  case False
  then show ?thesis
    by (auto simp: validate_input_unfold number_validator str_isdigit_def)
qed


section \<open>Field validator: numbers\<close>




section \<open>Text normalizer: age\<close>

lemma filter_isdigit_lower: "filter isdigit t = [] \<Longrightarrow> filter isdigit (lower t) = []"
  by (induction t) (auto simp: lower_def isdigit_lower_char split: if_splits)

lemma no_digit_invalid_number:
  assumes "filter isdigit y = []"
  shows "validate_input ''number'' y = Inr False"
proof (cases "strip y = []")
  case True
  then show ?thesis by (simp add: validate_number_eq)
next
  case False
  then obtain c where c: "c \<in> set (strip y)" by (cases "strip y") auto
  then have "c \<in> set y" using set_strip by blast
  with assms have "\<not> isdigit c" by (metis filter_empty_conv)
  with c have "\<not> list_all isdigit (strip y)" by (auto simp: list_all_iff)
  then show ?thesis by (simp add: validate_number_eq)
qed

lemma age_prompt: "contains (lower ''What is your age?'') ''age''"
  by code_simp

text \<open>
  Claim C1, as the code has it. For every transcript answering the age question that
  contains no digit, the age normalizer returns the lower-cased transcript (the guard
  \<^verbatim>\<open>if nums:\<close> keeps it), not the empty string, and that result fails number
  validation.
\<close>

theorem age_without_digits:
  assumes "filter isdigit t = []"
  shows "normalize_transcript ''What is your age?'' t = lower t
         \<and> normalize_age t = lower t
         \<and> validate_input ''number'' (normalize_age t) = Inr False"
proof -
  from assms have l: "filter isdigit (lower t) = []" by (rule filter_isdigit_lower)
  then have a: "normalize_age t = lower t" by (simp add: normalize_age_def Let_def)
  moreover have "normalize_transcript ''What is your age?'' t = normalize_age t"
    using age_prompt by (simp add: normalize_transcript_def)
  moreover have "validate_input ''number'' (lower t) = Inr False"
    using l by (rule no_digit_invalid_number)
  ultimately show ?thesis by simp
qed

theorem age_without_digits_witness:
  "filter isdigit ''I am twenty'' = []
   \<and> normalize_transcript ''What is your age?'' ''I am twenty'' = ''i am twenty''
   \<and> validate_input ''number'' (normalize_age ''I am twenty'') = Inr False"
proof -
  have f: "filter isdigit ''I am twenty'' = []" by code_simp
  have l: "lower ''I am twenty'' = ''i am twenty''" by code_simp
  from age_without_digits[OF f, unfolded l] f show ?thesis by blast
qed

text \<open>
  The transcript of the specification's example has no digit and is not normalized to the
  empty string.
\<close>

theorem age_empty_counterexample:
  "filter isdigit ''I am twenty five years old'' = []
   \<and> normalize_transcript ''What is your age?'' ''I am twenty five years old'' = ''i am twenty five years old''
   \<and> normalize_age ''I am twenty five years old'' \<noteq> []"
  by code_simp

section \<open>Text normalizer: email\<close>

text \<open>
  Claim C5. The source replaces \<^verbatim>\<open>' at '\<close> before \<^verbatim>\<open>'at rate'\<close>. In a transcript that
  says "at rate" between two words the first replacement consumes the \<^verbatim>\<open>' at '\<close>, the
  second no longer finds its substring, and the word "rate" stays in the address.
\<close>

theorem email_at_rate_order:
  "normalize_email ''john at rate example dot com'' = ''john@rateexample.com''
   \<and> replace (lower ''john at rate example dot com'') '' at '' ''@'' = ''john@rate example dot com''
   \<and> normalize_email ''john at example dot com'' = ''john@example.com''"
  by code_simp

section \<open>Input acquirer: service errors\<close>

lemma text_fallback:
  "map_option (\<lambda>(a, w'). (Inr a, w')) (get_text_input prompt w) =
     (case console w of
        [] \<Rightarrow> None
      | l # ls \<Rightarrow> Some (Inr (strip l), w\<lparr>console := ls\<rparr>))"
  by (simp add: get_text_input_def split: list.splits)

text \<open>
  Claim C8. When the listening attempt raises \<^verbatim>\<open>RequestError\<close>, \<^verbatim>\<open>get_voice_input\<close>
  returns what \<^verbatim>\<open>get_text_input\<close> reads next from the console, however many attempts
  remain; the outcomes of later listening attempts stay unconsumed.
\<close>

theorem service_error_falls_back:
  assumes "speech w = Inl (RequestError e) # rest"
  shows "get_voice_input prompt (Suc n) w =
           (case console w of
              [] \<Rightarrow> None
            | l # ls \<Rightarrow> Some (Inr (strip l), w\<lparr>speech := rest, console := ls\<rparr>))
         \<and> acquire True prompt w = get_voice_input prompt (Suc n) w"
proof -
  have v: "get_voice_input prompt (Suc k) w =
           (case console w of
              [] \<Rightarrow> None
            | l # ls \<Rightarrow> Some (Inr (strip l), w\<lparr>speech := rest, console := ls\<rparr>))" for k
    using assms by (simp add: text_fallback split: list.splits)
  have "acquire True prompt w = get_voice_input prompt (Suc 2) w"
    by (simp add: acquire_def numeral_3_eq_3)
  with v[of n] v[of 2] show ?thesis by simp
qed

theorem service_error_falls_back_witness:
  "get_voice_input ''What is your full name?'' 3
     \<lparr>speech = [Inl (RequestError ''no connection''), Inr ''never heard''],
      console = ['' Jane Doe ''], now = '''', files = Map.empty\<rparr>
   = Some (Inr ''Jane Doe'',
       \<lparr>speech = [Inr ''never heard''], console = [], now = '''', files = Map.empty\<rparr>)"
proof -
  have s: "strip '' Jane Doe '' = ''Jane Doe''" by code_simp
  have sp: "speech \<lparr>speech = [Inl (RequestError ''no connection''), Inr ''never heard''],
      console = ['' Jane Doe ''], now = '''', files = Map.empty\<rparr>
      = Inl (RequestError ''no connection'') # [Inr ''never heard'']" by simp
  from service_error_falls_back[OF sp, of "''What is your full name?''" 2] s
  show ?thesis by (simp add: numeral_3_eq_3)
qed

section \<open>Lists with one item\<close>

lemma split_char_nonempty: "split_char sep s \<noteq> []"
  by (induction s) (auto split: list.splits)

lemma split_char_no_sep: "sep \<notin> set s \<Longrightarrow> split_char sep s = [s]"
  by (induction s) auto

lemma list_validator:
  "map_of validators ''list'' =
     Some (\<lambda>x. Inr (list_all (\<lambda>item. length (strip item) > 0) (split_char CHR '','' x)))"
  by (simp add: validators_def)

lemma skills_question:
  "questions ! 5 = (''skills'', ''What are your skills? (separate with and)'', ''list'')"
  by (simp add: questions_def)

lemma validate_list_single:
  assumes "CHR '','' \<notin> set a"
  shows "validate_input ''list'' a = Inr (strip a \<noteq> [])"
proof -
  from assms have "CHR '','' \<notin> set (strip a)" using set_strip by blast
  then have "split_char CHR '','' (strip a) = [strip a]" by (rule split_char_no_sep)
  then show ?thesis
    by (simp add: validate_input_unfold list_validator strip_idem)
qed

text \<open>
  Claim C10. An answer to the list question without a comma is valid exactly when its
  trimmed form is not empty, and the wizard stores it as the one-element list of its
  trimmed text and moves to the next question.
\<close>

theorem single_skill_accepted:
  assumes "CHR '','' \<notin> set a"
  shows "validate_input ''list'' a = Inr (strip a \<noteq> [])
         \<and> store_answer ''skills'' a p = Inr (AList.update ''skills'' (PList [strip a]) p)
         \<and> (qidx s = 5 \<and> strip a \<noteq> [] \<and> acquire use_voice (fst (snd (questions ! 5))) (world s) = Some (Inr a, w')
              \<longrightarrow> iteration use_voice s =
                    Some \<lparr>qidx = 6, profile = AList.update ''skills'' (PList [strip a]) (profile s),
                          world = w',
                          history = history s @ [AList.update ''skills'' (PList [strip a]) (profile s)]\<rparr>)"
proof -
  have v: "validate_input ''list'' a = Inr (strip a \<noteq> [])"
    using assms by (rule validate_list_single)
  have st: "store_answer ''skills'' a q = Inr (AList.update ''skills'' (PList [strip a]) q)" for q
    using assms by (simp add: store_answer_def split_char_no_sep)
  have "iteration use_voice s =
          Some \<lparr>qidx = 6, profile = AList.update ''skills'' (PList [strip a]) (profile s), world = w',
                history = history s @ [AList.update ''skills'' (PList [strip a]) (profile s)]\<rparr>"
    if "qidx s = 5" "strip a \<noteq> []"
       "acquire use_voice (fst (snd (questions ! 5))) (world s) = Some (Inr a, w')"
    using that v st[of "profile s"] by (simp add: iteration_def skills_question)
  with v st[of p] show ?thesis by blast
qed

theorem single_skill_accepted_witness:
  "validate_input ''list'' ''python'' = Inr True
   \<and> store_answer ''skills'' ''python'' initial_profile
       = Inr (AList.update ''skills'' (PList [''python'']) initial_profile)
   \<and> iteration False
        \<lparr>qidx = 5, profile = initial_profile,
         world = \<lparr>speech = [], console = ['' python ''], now = [], files = Map.empty\<rparr>,
         history = [initial_profile]\<rparr>
       = Some \<lparr>qidx = 6,
               profile = AList.update ''skills'' (PList [''python'']) initial_profile,
               world = \<lparr>speech = [], console = [], now = [], files = Map.empty\<rparr>,
               history = [initial_profile,
                          AList.update ''skills'' (PList [''python'']) initial_profile]\<rparr>"
proof -
  let ?w = "\<lparr>speech = [], console = ['' python ''], now = [], files = Map.empty\<rparr>"
  let ?w' = "\<lparr>speech = [], console = [], now = [], files = Map.empty\<rparr>"
  let ?s = "\<lparr>qidx = 5, profile = initial_profile, world = ?w, history = [initial_profile]\<rparr>"
  have c: "CHR '','' \<notin> set ''python''" by simp
  have s1: "strip ''python'' = ''python''" by code_simp
  have s2: "strip '' python '' = ''python''" by code_simp
  have a: "acquire False (fst (snd (questions ! 5))) (world ?s) = Some (Inr ''python'', ?w')"
    by (simp add: acquire_def get_text_input_def s2)
  from single_skill_accepted[OF c, of initial_profile ?s False ?w'] s1 a
  show ?thesis by simp
qed

section \<open>The derivative matcher decides the language\<close>

lemma conc_iff: "w \<in> conc A B \<longleftrightarrow> (\<exists>xs ys. w = xs @ ys \<and> xs \<in> A \<and> ys \<in> B)"
  by (auto simp: conc_def)

lemma conc_Nil: "[] \<in> conc A B \<longleftrightarrow> [] \<in> A \<and> [] \<in> B"
  by (auto simp: conc_iff)

lemma conc_Cons:
  "c # w \<in> conc A B \<longleftrightarrow>
     (\<exists>u v. w = u @ v \<and> c # u \<in> A \<and> v \<in> B) \<or> ([] \<in> A \<and> c # w \<in> B)"
proof
  assume "c # w \<in> conc A B"
  then obtain xs ys where s: "c # w = xs @ ys" "xs \<in> A" "ys \<in> B"
    by (auto simp: conc_iff)
  show "(\<exists>u v. w = u @ v \<and> c # u \<in> A \<and> v \<in> B) \<or> ([] \<in> A \<and> c # w \<in> B)"
  proof (cases xs)
    case Nil
    with s show ?thesis by simp
  next
    case (Cons x u)
    with s have "x = c" "w = u @ ys" by simp_all
    with s Cons show ?thesis by blast
  qed
next
  assume "(\<exists>u v. w = u @ v \<and> c # u \<in> A \<and> v \<in> B) \<or> ([] \<in> A \<and> c # w \<in> B)"
  then show "c # w \<in> conc A B"
  proof
    assume "\<exists>u v. w = u @ v \<and> c # u \<in> A \<and> v \<in> B"
    then obtain u v where "w = u @ v" "c # u \<in> A" "v \<in> B" by blast
    then have "c # w = (c # u) @ v" by simp
    with \<open>c # u \<in> A\<close> \<open>v \<in> B\<close> show ?thesis unfolding conc_iff by blast
  next
    assume "[] \<in> A \<and> c # w \<in> B"
    then have "c # w = [] @ (c # w)" "[] \<in> A" "c # w \<in> B" by simp_all
    then show ?thesis unfolding conc_iff by blast
  qed
qed

lemma star_Cons_split:
  assumes "x \<in> star A" "x = c # w"
  shows "\<exists>u v. w = u @ v \<and> c # u \<in> A \<and> v \<in> star A"
  using assms
proof (induction arbitrary: w rule: star.induct)
  case star_nil
  then show ?case by simp
next
  case (star_app xs ys)
  show ?case
  proof (cases xs)
    case Nil
    with star_app.prems have "ys = c # w" by simp
    then show ?thesis by (rule star_app.IH)
  next
    case (Cons x u)
    with star_app.prems have "x = c" "w = u @ ys" by simp_all
    with Cons star_app.hyps show ?thesis by blast
  qed
qed

lemma star_Cons:
  "c # w \<in> star A \<longleftrightarrow> (\<exists>u v. w = u @ v \<and> c # u \<in> A \<and> v \<in> star A)"
proof
  assume "c # w \<in> star A"
  then show "\<exists>u v. w = u @ v \<and> c # u \<in> A \<and> v \<in> star A"
    by (rule star_Cons_split) simp
next
  assume "\<exists>u v. w = u @ v \<and> c # u \<in> A \<and> v \<in> star A"
  then obtain u v where w: "w = u @ v" and "c # u \<in> A" "v \<in> star A" by blast
  then have "(c # u) @ v \<in> star A" by (intro star_app)
  with w show "c # w \<in> star A" by simp
qed

lemma nullable_iff: "nullable r \<longleftrightarrow> [] \<in> lang r"
  by (induction r) (auto simp: conc_Nil intro: star_nil)

lemma lang_deriv: "w \<in> lang (deriv c r) \<longleftrightarrow> c # w \<in> lang r"
proof (induction r arbitrary: w)
  case (Seq r1 r2)
  have D: "w \<in> conc (lang (deriv c r1)) (lang r2)
             \<longleftrightarrow> (\<exists>u v. w = u @ v \<and> c # u \<in> lang r1 \<and> v \<in> lang r2)"
    by (simp add: conc_iff Seq.IH(1))
  show ?case
    by (simp add: conc_Cons nullable_iff Seq.IH(2) D)
next
  case (Star r)
  have "w \<in> conc (lang (deriv c r)) (star (lang r))
             \<longleftrightarrow> (\<exists>u v. w = u @ v \<and> c # u \<in> lang r \<and> v \<in> star (lang r))"
    by (simp add: conc_iff Star.IH)
  then show ?case
    by (simp add: star_Cons)
qed auto

lemma matches_iff: "matches r w \<longleftrightarrow> w \<in> lang r"
  by (induction w arbitrary: r) (simp_all add: nullable_iff lang_deriv)

lemma star_Sym: "w \<in> star {[c] | c. p c} \<longleftrightarrow> list_all p w"
proof (induction w)
  case Nil
  show ?case by (simp add: star_nil)
next
  case (Cons a w)
  have "a # w \<in> star {[c] | c. p c} \<longleftrightarrow> p a \<and> w \<in> star {[c] | c. p c}"
    by (auto simp: star_Cons)
  with Cons show ?case by simp
qed

lemma lang_Plus_Sym: "w \<in> lang (Plus (Sym p)) \<longleftrightarrow> w \<noteq> [] \<and> list_all p w"
proof (cases w)
  case Nil
  then show ?thesis by (simp add: Plus_def conc_Nil)
next
  case (Cons a u)
  have "a # u \<in> conc {[c] | c. p c} (star {[c] | c. p c}) \<longleftrightarrow> p a \<and> u \<in> star {[c] | c. p c}"
    by (auto simp: conc_Cons)
  with Cons show ?thesis by (simp add: Plus_def star_Sym)
qed

lemma lang_Rep_Sym: "w \<in> lang (Rep n (Sym p)) \<longleftrightarrow> length w = n \<and> list_all p w"
proof (induction n arbitrary: w)
  case 0
  show ?case by auto
next
  case (Suc n)
  show ?case
  proof (cases w)
    case Nil
    then show ?thesis by (simp add: conc_Nil)
  next
    case (Cons a u)
    have "a # u \<in> conc {[c] | c. p c} (lang (Rep n (Sym p))) \<longleftrightarrow> p a \<and> u \<in> lang (Rep n (Sym p))"
      by (auto simp: conc_Cons)
    with Cons Suc show ?thesis by auto
  qed
qed

lemma lang_Sym_conc: "w \<in> conc {[c] | c. p c} B \<longleftrightarrow> (\<exists>a u. w = a # u \<and> p a \<and> u \<in> B)"
  by (cases w) (auto simp: conc_Nil conc_Cons)

lemma email_shape:
  "matches (Seq (Plus (Sym p)) (Seq (Sym (\<lambda>c. c = a)) (Seq (Plus (Sym p))
      (Seq (Sym (\<lambda>c. c = b)) (Plus (Sym q)))))) w \<longleftrightarrow>
   (\<exists>l d s. w = l @ [a] @ d @ [b] @ s \<and> l \<noteq> [] \<and> d \<noteq> [] \<and> s \<noteq> []
            \<and> list_all p l \<and> list_all p d \<and> list_all q s)"
proof -
  have P: "\<And>A u. u \<in> conc (lang (Plus (Sym p))) A \<longleftrightarrow>
             (\<exists>l r. u = l @ r \<and> l \<noteq> [] \<and> list_all p l \<and> r \<in> A)"
    unfolding conc_iff lang_Plus_Sym by blast
  have S: "\<And>x A u. u \<in> conc (lang (Sym (\<lambda>c. c = x))) A \<longleftrightarrow> (\<exists>r. u = [x] @ r \<and> r \<in> A)"
    using lang_Sym_conc[where p = "\<lambda>c. c = x" for x] by auto
  show ?thesis
    unfolding matches_iff lang.simps(5) P S lang_Plus_Sym
    by blast
qed

section \<open>Field validator: email and phone\<close>

lemma newline_is_space: "isspace (CHR 0x0A)"
  by (simp add: isspace_def)

lemma anchored_on_stripped:
  "re_match_anchored r (strip x) = matches r (strip x)"
proof (cases "strip x = []")
  case True
  then show ?thesis by (simp add: re_match_anchored_def)
next
  case False
  then have "\<not> isspace (last (strip x))" by (rule strip_last)
  then have "last (strip x) \<noteq> CHR 0x0A" using newline_is_space by metis
  then show ?thesis by (simp add: re_match_anchored_def)
qed

lemma email_validator:
  "map_of validators ''email'' = Some (\<lambda>x. Inr (re_match_anchored email_re x))"
  by (simp add: validators_def)

lemma validate_email_eq:
  "validate_input ''email'' x =
     Inr (\<exists>l d s. strip x = l @ ''@'' @ d @ ''.'' @ s \<and> l \<noteq> [] \<and> d \<noteq> [] \<and> s \<noteq> []
                  \<and> list_all word_dot_hyphen l \<and> list_all word_dot_hyphen d
                  \<and> list_all isword s)"
proof (cases "strip x = []")
  case True
  then show ?thesis by (simp add: validate_input_unfold)
next
  case False
  then show ?thesis
    by (simp add: validate_input_unfold email_validator anchored_on_stripped strip_idem
          email_re_def email_shape)
qed

text \<open>
  Claim C4, as the code has it. \<^verbatim>\<open>_validate_input('email', x)\<close> is true exactly when the
  trimmed string is \<open>local @ domain . suffix\<close>, where local and domain are non-empty strings
  of word characters, dots and hyphens, and the suffix is a non-empty string of word
  characters (letters, digits and the underscore, not letters only). It is true for
  \<^verbatim>\<open>a.b@c.org\<close> and false for \<^verbatim>\<open>a@b\<close> and \<^verbatim>\<open>abc\<close>.
\<close>

theorem email_validation:
  "validate_input ''email'' x =
     Inr (\<exists>l d s. strip x = l @ ''@'' @ d @ ''.'' @ s \<and> l \<noteq> [] \<and> d \<noteq> [] \<and> s \<noteq> []
                  \<and> list_all word_dot_hyphen l \<and> list_all word_dot_hyphen d
                  \<and> list_all isword s)
   \<and> validate_input ''email'' ''a.b@c.org'' = Inr True
   \<and> validate_input ''email'' ''a@b'' = Inr False
   \<and> validate_input ''email'' ''abc'' = Inr False"
proof -
  have e1: "validate_input ''email'' ''a.b@c.org'' = Inr True" by code_simp
  have e2: "validate_input ''email'' ''a@b'' = Inr False" by code_simp
  have e3: "validate_input ''email'' ''abc'' = Inr False" by code_simp
  from validate_email_eq e1 e2 e3 show ?thesis by (intro conjI)
qed

theorem email_validation_witness:
  "validate_input ''email'' '' jane@x.com '' = Inr True
   \<and> (\<exists>l d s. strip '' jane@x.com '' = l @ ''@'' @ d @ ''.'' @ s \<and> l \<noteq> [] \<and> d \<noteq> [] \<and> s \<noteq> []
                  \<and> list_all word_dot_hyphen l \<and> list_all word_dot_hyphen d
                  \<and> list_all isword s)"
proof -
  have v: "validate_input ''email'' '' jane@x.com '' = Inr True" by code_simp
  from email_validation[of "'' jane@x.com ''"] v show ?thesis by simp
qed

text \<open>
  Two addresses that the code accepts and the pattern of the specification rejects: a
  suffix that is a digit, and a hyphen in the local part.
\<close>

theorem email_pattern_counterexample:
  "validate_input ''email'' ''a@b.1'' = Inr True
   \<and> \<not> matches spec_email_re ''a@b.1''
   \<and> validate_input ''email'' ''a-b@c.org'' = Inr True
   \<and> \<not> matches spec_email_re ''a-b@c.org''"
  by code_simp

lemma replace_char_empty: "replace s [c] [] = filter (\<lambda>x. x \<noteq> c) s"
proof -
  have "replace_from [c] [] s = filter (\<lambda>x. x \<noteq> c) s"
    by (induction s) (auto simp: startswith_def)
  then show ?thesis by (simp add: replace_def)
qed

lemma phone_validator:
  "map_of validators ''phone'' =
     Some (\<lambda>x. Inr (re_match_anchored phone_re (replace (replace x ''-'' '''') '' '' '''')))"
  by (simp add: validators_def)

lemma validate_phone_eq:
  "validate_input ''phone'' x =
     Inr (let t = filter (\<lambda>c. c \<noteq> CHR '' '') (filter (\<lambda>c. c \<noteq> CHR ''-'') (strip x))
          in ten_digits t \<or> (t \<noteq> [] \<and> last t = CHR 0x0A \<and> ten_digits (butlast t)))"
proof (cases "strip x = []")
  case True
  then show ?thesis by (simp add: validate_input_unfold ten_digits_def)
next
  case False
  then show ?thesis
    by (simp add: validate_input_unfold phone_validator replace_char_empty
          re_match_anchored_def phone_re_def matches_iff lang_Rep_Sym ten_digits_def Let_def)
qed

section \<open>The question loop\<close>

lemma run_questions_unfold:
  "run_questions v s =
     (if qidx s \<ge> length questions then s
      else (case iteration v s of None \<Rightarrow> s | Some s' \<Rightarrow> run_questions v s'))"
  by (rule run_questions.simps)

lemma run_questions_invariant:
  assumes "P s"
    and "\<And>t t'. P t \<Longrightarrow> qidx t < length questions \<Longrightarrow> iteration v t = Some t' \<Longrightarrow> P t'"
  shows "P (run_questions v s)"
  using assms
proof (induction v s rule: run_questions.induct)
  case (1 v s)
  show ?case
  proof (cases "qidx s \<ge> length questions")
    case True
    with "1.prems"(1) show ?thesis by (simp add: run_questions_unfold[of v s])
  next
    case False
    show ?thesis
    proof (cases "iteration v s")
      case None
      with False "1.prems"(1) show ?thesis by (simp add: run_questions_unfold[of v s])
    next
      case (Some s')
      from False have lt: "qidx s < length questions" by simp
      have "P s'" using "1.prems"(2)[OF "1.prems"(1) lt Some] .
      then have "P (run_questions v s')"
        using "1.IH"[OF False Some] "1.prems"(2) by blast
      with False Some show ?thesis by (simp add: run_questions_unfold[of v s])
    qed
  qed
qed

lemma iteration_step:
  assumes "iteration v s = Some s'"
  shows "\<exists>field question kind r.
           questions ! qidx s = (field, question, kind)
           \<and> acquire v question (world s) = Some (r, world s')
           \<and> ((qidx s' = qidx s \<and> profile s' = profile s \<and> history s' = history s)
              \<or> (\<exists>a. r = Inr a \<and> validate_input kind a = Inr True
                    \<and> store_answer field a (profile s) = Inr (profile s')
                    \<and> qidx s' = Suc (qidx s)
                    \<and> history s' = history s @ [profile s']))"
proof -
  obtain field question kind where q: "questions ! qidx s = (field, question, kind)"
    by (cases "questions ! qidx s") auto
  from assms q obtain r w' where ac: "acquire v question (world s) = Some (r, w')"
    by (cases "acquire v question (world s)") (auto simp: iteration_def)
  have "world s' = w'
        \<and> ((qidx s' = qidx s \<and> profile s' = profile s \<and> history s' = history s)
              \<or> (\<exists>a. r = Inr a \<and> validate_input kind a = Inr True
                    \<and> store_answer field a (profile s) = Inr (profile s')
                    \<and> qidx s' = Suc (qidx s)
                    \<and> history s' = history s @ [profile s']))"
    using assms q ac
    by (auto simp: iteration_def split: sum.splits bool.splits)
  with q ac show ?thesis by blast
qed

lemma iteration_cases:
  assumes "iteration v s = Some s'"
  obtains (same) "qidx s' = qidx s" "profile s' = profile s" "history s' = history s"
  | (advanced) field question kind a where "questions ! qidx s = (field, question, kind)"
      "validate_input kind a = Inr True"
      "store_answer field a (profile s) = Inr (profile s')"
      "qidx s' = Suc (qidx s)" "history s' = history s @ [profile s']"
  using iteration_step[OF assms] by blast

lemma store_answer_update:
  "store_answer f a p = Inr p' \<Longrightarrow> \<exists>v. p' = AList.update f v p"
  by (auto simp: store_answer_def split: if_splits sum.splits)

lemma store_answer_other:
  "store_answer f a p = Inr p' \<Longrightarrow> k \<noteq> f \<Longrightarrow> map_of p' k = map_of p k"
  by (auto dest!: store_answer_update simp: update_conv')


lemma question_count: "length questions = 8"
  by (simp add: questions_def)

lemma question_fields: "map fst questions =
  [''name'', ''age'', ''email'', ''phone'', ''occupation'', ''skills'', ''education'', ''location'']"
  by (simp add: questions_def)

lemma distinct_fields: "distinct (map fst questions)"
  by (simp add: question_fields)

lemma created_at_no_field: "''created_at'' \<notin> set (map fst questions)"
  by (simp add: question_fields)


lemma field_in_questions: "i < length questions \<Longrightarrow> fst (questions ! i) \<in> set (map fst questions)"
  by (metis length_map nth_map nth_mem)

lemma field_not_created_at: "i < length questions \<Longrightarrow> fst (questions ! i) \<noteq> ''created_at''"
  using field_in_questions created_at_no_field by metis

lemma fields_differ:
  assumes "i < length questions" "j < length questions" "i \<noteq> j"
  shows "fst (questions ! i) \<noteq> fst (questions ! j)"
proof -
  have "map fst questions ! i \<noteq> map fst questions ! j"
    using assms distinct_fields by (simp add: nth_eq_iff_index_eq del: nth_map)
  with assms show ?thesis by simp
qed

lemma run_index_profile:
  "qidx s \<le> qidx (run_questions v s)
   \<and> (qidx (run_questions v s) = qidx s
        \<longrightarrow> profile (run_questions v s) = profile s \<and> history (run_questions v s) = history s)"
proof (rule run_questions_invariant)
  show "qidx s \<le> qidx s \<and> (qidx s = qidx s \<longrightarrow> profile s = profile s \<and> history s = history s)"
    by simp
next
  fix t t'
  assume inv: "qidx s \<le> qidx t \<and> (qidx t = qidx s \<longrightarrow> profile t = profile s \<and> history t = history s)"
    and it: "iteration v t = Some t'"
  from it show "qidx s \<le> qidx t'
      \<and> (qidx t' = qidx s \<longrightarrow> profile t' = profile s \<and> history t' = history s)"
  proof (cases rule: iteration_cases)
    case same
    with inv show ?thesis by simp
  next
    case (advanced field question kind a)
    with inv show ?thesis by simp
  qed
qed


subsection \<open>The input that a session consumes\<close>

lemma later_refl: "later w w"
proof -
  have "w = w\<lparr>console := drop 0 (console w), speech := drop 0 (speech w)\<rparr>" by simp
  then show ?thesis unfolding later_def by blast
qed

lemma later_trans:
  assumes "later w u" and "later u x"
  shows "later w x"
proof -
  from assms(1) obtain n m
    where u: "u = w\<lparr>console := drop n (console w), speech := drop m (speech w)\<rparr>"
    unfolding later_def by blast
  from assms(2) obtain n' m'
    where x: "x = u\<lparr>console := drop n' (console u), speech := drop m' (speech u)\<rparr>"
    unfolding later_def by blast
  have "x = w\<lparr>console := drop (n' + n) (console w), speech := drop (m' + m) (speech w)\<rparr>"
    by (simp add: x u)
  then show ?thesis unfolding later_def by blast
qed

lemma later_console: "console w = l # ls \<Longrightarrow> later w (w\<lparr>console := ls\<rparr>)"
proof -
  assume c: "console w = l # ls"
  then have "w\<lparr>console := ls\<rparr> = w\<lparr>console := drop 1 (console w), speech := drop 0 (speech w)\<rparr>"
    by simp
  then show ?thesis unfolding later_def by blast
qed

lemma later_speech: "speech w = h # r \<Longrightarrow> later w (w\<lparr>speech := r\<rparr>)"
proof -
  assume c: "speech w = h # r"
  then have "w\<lparr>speech := r\<rparr> = w\<lparr>console := drop 0 (console w), speech := drop 1 (speech w)\<rparr>"
    by simp
  then show ?thesis unfolding later_def by blast
qed

lemma later_now: "later w u \<Longrightarrow> now u = now w \<and> files u = files w"
  by (auto simp: later_def)

lemma later_sets:
  "later w u \<Longrightarrow> set (console u) \<subseteq> set (console w) \<and> set (speech u) \<subseteq> set (speech w)"
  by (auto simp: later_def dest: in_set_dropD)

lemma get_text_later: "get_text_input q w = Some (a, w') \<Longrightarrow> later w w'"
  by (auto simp: get_text_input_def split: list.splits intro: later_console)

lemma get_text_source: "get_text_input q w = Some (a, w') \<Longrightarrow> \<exists>l \<in> set (console w). a = strip l"
  by (auto simp: get_text_input_def split: list.splits)

lemma source_later:
  assumes "later w u"
    and "later u w'
     \<and> (\<forall>a. r = Inr a \<longrightarrow> (\<exists>l \<in> set (console u). a = strip l)
                          \<or> (\<exists>t. Inr t \<in> set (speech u) \<and> a = normalize_transcript q t))"
  shows "later w w'
     \<and> (\<forall>a. r = Inr a \<longrightarrow> (\<exists>l \<in> set (console w). a = strip l)
                          \<or> (\<exists>t. Inr t \<in> set (speech w) \<and> a = normalize_transcript q t))"
proof -
  from assms(2) have "later u w'" by simp
  with assms(1) have lt: "later w w'" by (rule later_trans)
  from later_sets[OF assms(1)] have c: "set (console u) \<subseteq> set (console w)"
    and s: "set (speech u) \<subseteq> set (speech w)" by simp_all
  from assms(2) c s have "\<forall>a. r = Inr a \<longrightarrow> (\<exists>l \<in> set (console w). a = strip l)
                          \<or> (\<exists>t. Inr t \<in> set (speech w) \<and> a = normalize_transcript q t)"
    by blast
  with lt show ?thesis by simp
qed

lemma get_voice_later_source:
  "get_voice_input q n w = Some (r, w') \<Longrightarrow>
     later w w'
     \<and> (\<forall>a. r = Inr a \<longrightarrow> (\<exists>l \<in> set (console w). a = strip l)
                          \<or> (\<exists>t. Inr t \<in> set (speech w) \<and> a = normalize_transcript q t))"
proof (induction n arbitrary: w)
  case 0
  then obtain a where t: "get_text_input q w = Some (a, w')" and r: "r = Inr a" by auto
  from get_text_later[OF t] get_text_source[OF t] r show ?case by auto
next
  case (Suc n)
  from Suc.prems obtain heard rest where sp: "speech w = heard # rest"
    by (cases "speech w") auto
  let ?w1 = "w\<lparr>speech := rest\<rparr>"
  have l1: "later w ?w1" using sp by (rule later_speech)
  have c1: "console ?w1 = console w" and s1: "set (speech ?w1) \<subseteq> set (speech w)"
    using sp by auto
  show ?case
  proof (cases heard)
    case (Inr transcript)
    with Suc.prems sp obtain l ls where c: "console ?w1 = l # ls"
      by (cases "console w") (auto simp: Let_def)
    let ?w2 = "?w1\<lparr>console := ls\<rparr>"
    have l2: "later w ?w2" using l1 later_console[OF c] by (rule later_trans)
    have c2: "set (console ?w2) \<subseteq> set (console w)" and s2: "set (speech ?w2) \<subseteq> set (speech w)"
      using c sp by auto
    show ?thesis
    proof (cases "startswith (lower l) ''y''")
      case True
      with Suc.prems sp Inr c have "r = Inr (normalize_transcript q transcript)" "w' = ?w2"
        by (auto simp: Let_def)
      moreover have "Inr transcript \<in> set (speech w)" using sp Inr by simp
      ultimately show ?thesis using l2 by blast
    next
      case False
      with Suc.prems sp Inr c have "get_voice_input q n ?w2 = Some (r, w')"
        by (auto simp: Let_def)
      from source_later[OF l2 Suc.IH[OF this]] show ?thesis .
    qed
  next
    case (Inl e)
    show ?thesis
    proof (cases e)
      case WaitTimeoutError
      with Suc.prems sp Inl have "get_voice_input q n ?w1 = Some (r, w')" by (simp add: Let_def)
      from source_later[OF l1 Suc.IH[OF this]] show ?thesis .
    next
      case UnknownValueError
      with Suc.prems sp Inl have "get_voice_input q n ?w1 = Some (r, w')" by (simp add: Let_def)
      from source_later[OF l1 Suc.IH[OF this]] show ?thesis .
    next
      case (RequestError m)
      with Suc.prems sp Inl obtain a where t: "get_text_input q ?w1 = Some (a, w')"
        and r: "r = Inr a" by (auto simp: Let_def)
      from get_text_later[OF t] get_text_source[OF t] r
      have "later ?w1 w'
        \<and> (\<forall>a. r = Inr a \<longrightarrow> (\<exists>l \<in> set (console ?w1). a = strip l)
                          \<or> (\<exists>t. Inr t \<in> set (speech ?w1) \<and> a = normalize_transcript q t))"
        by simp
      from source_later[OF l1 this] show ?thesis .
    next
      case ValueError
      with Suc.prems sp Inl l1 show ?thesis by (auto simp: Let_def)
    next
      case FileExistsError
      with Suc.prems sp Inl l1 show ?thesis by (auto simp: Let_def)
    next
      case IsADirectoryError
      with Suc.prems sp Inl l1 show ?thesis by (auto simp: Let_def)
    next
      case (OtherError m)
      with Suc.prems sp Inl l1 show ?thesis by (auto simp: Let_def)
    qed
  qed
qed

lemma acquire_later: "acquire v q w = Some (r, w') \<Longrightarrow> later w w'"
proof (cases v)
  case True
  assume "acquire v q w = Some (r, w')"
  with True have "get_voice_input q 3 w = Some (r, w')" by (simp add: acquire_def)
  from get_voice_later_source[OF this] show ?thesis by simp
next
  case False
  assume "acquire v q w = Some (r, w')"
  with False obtain a where "get_text_input q w = Some (a, w')"
    by (auto simp: acquire_def)
  then show ?thesis by (rule get_text_later)
qed

lemma acquire_source:
  assumes "acquire v q w = Some (Inr a, w')"
  shows "(\<exists>l \<in> set (console w). a = strip l)
         \<or> (\<exists>t. Inr t \<in> set (speech w) \<and> a = normalize_transcript q t)"
proof (cases v)
  case True
  with assms have "get_voice_input q 3 w = Some (Inr a, w')" by (simp add: acquire_def)
  from get_voice_later_source[OF this] show ?thesis by simp
next
  case False
  with assms have "get_text_input q w = Some (a, w')"
    by (auto simp: acquire_def)
  from get_text_source[OF this] show ?thesis by simp
qed

subsection \<open>The history of the profile\<close>

lemma run_chain:
  assumes "later w (world s)" and "qidx s \<le> length questions"
    and "length (history s) = Suc (qidx s)" and "profile s = last (history s)"
    and "\<forall>j<qidx s. accepted v w j (history s ! j) (history s ! Suc j)"
  shows "later w (world (run_questions v s))
         \<and> qidx (run_questions v s) \<le> length questions
         \<and> length (history (run_questions v s)) = Suc (qidx (run_questions v s))
         \<and> profile (run_questions v s) = last (history (run_questions v s))
         \<and> history (run_questions v s) ! 0 = history s ! 0
         \<and> (\<forall>j<qidx (run_questions v s).
               accepted v w j (history (run_questions v s) ! j) (history (run_questions v s) ! Suc j))"
proof (rule run_questions_invariant)
  show "later w (world s) \<and> qidx s \<le> length questions
         \<and> length (history s) = Suc (qidx s) \<and> profile s = last (history s)
         \<and> history s ! 0 = history s ! 0
         \<and> (\<forall>j<qidx s. accepted v w j (history s ! j) (history s ! Suc j))"
    using assms by simp
next
  fix t t'
  assume inv: "later w (world t) \<and> qidx t \<le> length questions
         \<and> length (history t) = Suc (qidx t) \<and> profile t = last (history t)
         \<and> history t ! 0 = history s ! 0
         \<and> (\<forall>j<qidx t. accepted v w j (history t ! j) (history t ! Suc j))"
    and lt: "qidx t < length questions" and it: "iteration v t = Some t'"
  from inv have lw: "later w (world t)" and len: "length (history t) = Suc (qidx t)"
    and pr: "profile t = last (history t)" and h0: "history t ! 0 = history s ! 0"
    and ch: "\<forall>j<qidx t. accepted v w j (history t ! j) (history t ! Suc j)"
    by simp_all
  from iteration_step[OF it] obtain field question kind r where
    q: "questions ! qidx t = (field, question, kind)"
    and ac: "acquire v question (world t) = Some (r, world t')"
    and alt: "(qidx t' = qidx t \<and> profile t' = profile t \<and> history t' = history t)
              \<or> (\<exists>a. r = Inr a \<and> validate_input kind a = Inr True
                    \<and> store_answer field a (profile t) = Inr (profile t')
                    \<and> qidx t' = Suc (qidx t)
                    \<and> history t' = history t @ [profile t'])"
    by blast
  from lw acquire_later[OF ac] have lw': "later w (world t')" by (rule later_trans)
  from alt show "later w (world t') \<and> qidx t' \<le> length questions
         \<and> length (history t') = Suc (qidx t') \<and> profile t' = last (history t')
         \<and> history t' ! 0 = history s ! 0
         \<and> (\<forall>j<qidx t'. accepted v w j (history t' ! j) (history t' ! Suc j))"
  proof
    assume "qidx t' = qidx t \<and> profile t' = profile t \<and> history t' = history t"
    with inv lw' show ?thesis by simp
  next
    assume "\<exists>a. r = Inr a \<and> validate_input kind a = Inr True
                    \<and> store_answer field a (profile t) = Inr (profile t')
                    \<and> qidx t' = Suc (qidx t)
                    \<and> history t' = history t @ [profile t']"
    then obtain a where r: "r = Inr a" and va: "validate_input kind a = Inr True"
      and st: "store_answer field a (profile t) = Inr (profile t')"
      and nx: "qidx t' = Suc (qidx t)"
      and hi: "history t' = history t @ [profile t']" by blast
    from len have ne: "history t \<noteq> []" by auto
    from pr ne len have cur: "profile t = history t ! qidx t"
      by (simp add: last_conv_nth)
    have new: "history t' ! Suc (qidx t) = profile t'"
      using hi len by (simp add: nth_append)
    have old: "history t' ! j = history t ! j" if "j \<le> qidx t" for j
      using that hi len by (simp add: nth_append)
    have "accepted v w (qidx t) (history t ! qidx t) (profile t')"
      using q lw ac r va st cur by (auto simp: accepted_def)
    then have top: "accepted v w (qidx t) (history t' ! qidx t) (history t' ! Suc (qidx t))"
      using old[of "qidx t"] new by simp
    have "accepted v w j (history t' ! j) (history t' ! Suc j)" if j: "j < qidx t'" for j
    proof (cases "j = qidx t")
      case True
      with top show ?thesis by simp
    next
      case False
      with j nx have jl: "j < qidx t" by simp
      with ch have "accepted v w j (history t ! j) (history t ! Suc j)" by simp
      with jl old[of j] old[of "Suc j"] show ?thesis by simp
    qed
    moreover have "history t' ! 0 = history s ! 0" using old[of 0] h0 by simp
    moreover have "profile t' = last (history t')" using hi by simp
    moreover have "length (history t') = Suc (qidx t')" using hi len nx by simp
    ultimately show ?thesis using lw' lt nx by simp
  qed
qed

lemma save_profile_world:
  "save_profile p f w = Inr w' \<Longrightarrow> now w' = now w \<and> console w' = console w \<and> speech w' = speech w"
  by (auto simp: save_profile_def Let_def split: option.splits node.splits)

lemma create_profile_cases:
  assumes "create_profile w = Some (e, fin)"
  shows "\<exists>l ls s. console w = l # ls
           \<and> s = run_questions (startswith (lower l) ''y'')
                   \<lparr>qidx = 0, profile = initial_profile, world = w\<lparr>console := ls\<rparr>,
                    history = [initial_profile]\<rparr>
           \<and> length questions \<le> qidx s
           \<and> qidx fin = qidx s
           \<and> profile fin = AList.update ''created_at'' (PStr (now (world s))) (profile s)
           \<and> history fin = history s @ [profile fin]
           \<and> (case save_profile (profile fin) ''user_profile.json'' (world s) of
                 Inl x \<Rightarrow> e = Some x \<and> world fin = world s
               | Inr w' \<Rightarrow> e = None \<and> world fin = w')"
  using assms
  by (auto simp: create_profile_def Let_def split: list.splits if_splits sum.splits)

lemma completed_session:
  assumes cp: "create_profile w = Some (e, fin)"
  shows "qidx fin = length questions
         \<and> length (history fin) = length questions + 2
         \<and> history fin ! 0 = initial_profile
         \<and> (\<forall>j<length questions.
               accepted (startswith (lower (hd (console w))) ''y'') w j
                 (history fin ! j) (history fin ! Suc j))
         \<and> history fin ! Suc (length questions)
             = AList.update ''created_at'' (PStr (now w)) (history fin ! length questions)
         \<and> profile fin = history fin ! Suc (length questions)"
  using create_profile_cases[OF cp]
proof (elim exE conjE)
  fix l ls s
  let ?v = "startswith (lower l) ''y''"
  let ?s0 = "\<lparr>qidx = 0, profile = initial_profile, world = w\<lparr>console := ls\<rparr>,
               history = [initial_profile]\<rparr>"
  assume c: "console w = l # ls" and s: "s = run_questions ?v ?s0"
    and ge: "length questions \<le> qidx s" and qf: "qidx fin = qidx s"
    and pf: "profile fin = AList.update ''created_at'' (PStr (now (world s))) (profile s)"
    and hf: "history fin = history s @ [profile fin]"
  have "later w (world ?s0)" using later_console[OF c] by simp
  then have rc: "later w (world (run_questions ?v ?s0))
         \<and> qidx (run_questions ?v ?s0) \<le> length questions
         \<and> length (history (run_questions ?v ?s0)) = Suc (qidx (run_questions ?v ?s0))
         \<and> profile (run_questions ?v ?s0) = last (history (run_questions ?v ?s0))
         \<and> history (run_questions ?v ?s0) ! 0 = history ?s0 ! 0
         \<and> (\<forall>j<qidx (run_questions ?v ?s0).
               accepted ?v w j (history (run_questions ?v ?s0) ! j)
                 (history (run_questions ?v ?s0) ! Suc j))"
    by (rule run_chain) simp_all
  from rc s have lw: "later w (world s)" and le: "qidx s \<le> length questions"
    and len: "length (history s) = Suc (qidx s)" and pr: "profile s = last (history s)"
    and h0: "history s ! 0 = initial_profile"
    and ch: "\<forall>j<qidx s. accepted ?v w j (history s ! j) (history s ! Suc j)"
    by simp_all
  from ge le have q: "qidx s = length questions" by simp
  from len have ne: "history s \<noteq> []" by auto
  have old: "history fin ! j = history s ! j" if "j \<le> length questions" for j
    using that hf len q by (simp add: nth_append)
  have new: "history fin ! Suc (length questions) = profile fin"
    using hf len q by (simp add: nth_append)
  from pr ne len q have cur: "profile s = history s ! length questions"
    by (simp add: last_conv_nth)
  from later_now[OF lw] have nw: "now (world s) = now w" by simp
  have v: "startswith (lower (hd (console w))) ''y'' = ?v" using c by simp
  have "accepted ?v w j (history fin ! j) (history fin ! Suc j)" if "j < length questions" for j
    using that ch q old[of j] old[of "Suc j"] by simp
  then have chain: "\<forall>j<length questions.
               accepted (startswith (lower (hd (console w))) ''y'') w j
                 (history fin ! j) (history fin ! Suc j)"
    unfolding v by blast
  have stamp: "history fin ! Suc (length questions)
             = AList.update ''created_at'' (PStr (now w)) (history fin ! length questions)"
    using new pf nw cur old[of "length questions"] by simp
  have "length (history fin) = length questions + 2" using hf len q by simp
  moreover have "history fin ! 0 = initial_profile" using old[of 0] h0 by simp
  ultimately show ?thesis using qf q chain stamp new by simp
qed

lemma chain_field:
  assumes ch: "\<forall>j<n. accepted v w j (h ! j) (h ! Suc j)"
    and ab: "a \<le> b" "b \<le> n"
    and other: "\<forall>j. a \<le> j \<and> j < b \<longrightarrow> fst (questions ! j) \<noteq> g"
  shows "map_of (h ! b) g = map_of (h ! a) g"
  using ab other
proof (induction b)
  case 0
  then show ?case by simp
next
  case (Suc b)
  show ?case
  proof (cases "a = Suc b")
    case True
    then show ?thesis by simp
  next
    case False
    with Suc.prems have ab: "a \<le> b" and bn: "b \<le> n" and lt: "b < n" by simp_all
    from Suc.prems(3) have "\<forall>j. a \<le> j \<and> j < b \<longrightarrow> fst (questions ! j) \<noteq> g" by simp
    from Suc.IH[OF ab bn this] have IH: "map_of (h ! b) g = map_of (h ! a) g" .
    from ch lt have acc: "accepted v w b (h ! b) (h ! Suc b)" by simp
    obtain f q k where qb: "questions ! b = (f, q, k)" by (cases "questions ! b") auto
    with acc obtain x where st: "store_answer f x (h ! b) = Inr (h ! Suc b)"
      by (auto simp: accepted_def)
    from Suc.prems(3) ab qb have "g \<noteq> f" by auto
    from store_answer_other[OF st this] IH show ?thesis by simp
  qed
qed

lemma rejected_iteration:
  assumes "questions ! qidx s = (field, question, kind)"
    and "acquire v question (world s) = Some (r, w')"
    and "\<And>a. r = Inr a \<Longrightarrow> validate_input kind a \<noteq> Inr True"
  shows "iteration v s = Some (s\<lparr>world := w'\<rparr>)"
proof (cases r)
  case (Inl e)
  with assms(1,2) show ?thesis by (simp add: iteration_def)
next
  case (Inr a)
  with assms(3) have "validate_input kind a \<noteq> Inr True" by simp
  with Inr assms(1,2) show ?thesis
    by (auto simp: iteration_def split: sum.splits bool.splits)
qed

lemma jane_created_at: "finished_field ''created_at'' jane_session = Some (PStr ''2024-01-01T00:00:00'')"
  by code_simp

text \<open>
  Claim C7. One pass of the inner loop whose answer is missing (an exception was caught) or
  fails validation changes nothing but the consumed input: the question index, the profile
  and its history are as before. Over any run of the loops the index never decreases, and
  while it has not moved the profile has not been assigned to. In every completed session
  the dictionary took ten values. The first is the initial profile. Each of the next eight
  comes from the one before by the assignment, to the field of the question of that rank,
  of an answer that the acquirer returned on the input of the session and that passed the
  validation of the question. So as long as \<open>j\<close> questions are answered, the fields of the
  later questions hold their initial values, and \<^verbatim>\<open>created_at\<close> is \<^verbatim>\<open>None\<close>. The tenth and
  last value, the finished profile, comes from the ninth by the assignment of the clock
  reading to \<^verbatim>\<open>created_at\<close>: this field is set once, after the eight answers.
\<close>

theorem wizard_fields_after_validation:
  "(questions ! qidx s = (field, question, kind)
      \<and> acquire v question (world s) = Some (r, w')
      \<and> (\<forall>a. r = Inr a \<longrightarrow> validate_input kind a \<noteq> Inr True)
     \<longrightarrow> iteration v s = Some (s\<lparr>world := w'\<rparr>))
   \<and> qidx s \<le> qidx (run_questions v s)
   \<and> (qidx (run_questions v s) = qidx s
        \<longrightarrow> profile (run_questions v s) = profile s \<and> history (run_questions v s) = history s)
   \<and> (create_profile w = Some (e, fin) \<longrightarrow>
        qidx fin = length questions
        \<and> length (history fin) = length questions + 2
        \<and> history fin ! 0 = initial_profile
        \<and> (\<forall>j<length questions.
              accepted (startswith (lower (hd (console w))) ''y'') w j
                (history fin ! j) (history fin ! Suc j))
        \<and> (\<forall>j\<le>length questions.
              map_of (history fin ! j) ''created_at'' = Some PNone
              \<and> (\<forall>i<length questions. j \<le> i \<longrightarrow>
                    map_of (history fin ! j) (fst (questions ! i))
                      = map_of initial_profile (fst (questions ! i))))
        \<and> history fin ! Suc (length questions)
            = AList.update ''created_at'' (PStr (now w)) (history fin ! length questions)
        \<and> profile fin = history fin ! Suc (length questions))"
proof -
  have a: "questions ! qidx s = (field, question, kind)
      \<and> acquire v question (world s) = Some (r, w')
      \<and> (\<forall>a. r = Inr a \<longrightarrow> validate_input kind a \<noteq> Inr True)
     \<longrightarrow> iteration v s = Some (s\<lparr>world := w'\<rparr>)"
    using rejected_iteration by blast
  have d: "qidx fin = length questions
        \<and> length (history fin) = length questions + 2
        \<and> history fin ! 0 = initial_profile
        \<and> (\<forall>j<length questions.
              accepted (startswith (lower (hd (console w))) ''y'') w j
                (history fin ! j) (history fin ! Suc j))
        \<and> (\<forall>j\<le>length questions.
              map_of (history fin ! j) ''created_at'' = Some PNone
              \<and> (\<forall>i<length questions. j \<le> i \<longrightarrow>
                    map_of (history fin ! j) (fst (questions ! i))
                      = map_of initial_profile (fst (questions ! i))))
        \<and> history fin ! Suc (length questions)
            = AList.update ''created_at'' (PStr (now w)) (history fin ! length questions)
        \<and> profile fin = history fin ! Suc (length questions)"
    if cp: "create_profile w = Some (e, fin)"
  proof -
    let ?v = "startswith (lower (hd (console w))) ''y''"
    note cs = completed_session[OF cp]
    from cs have h0: "history fin ! 0 = initial_profile"
      and ch: "\<forall>j<length questions. accepted ?v w j (history fin ! j) (history fin ! Suc j)"
      by simp_all
    have early: "map_of (history fin ! j) ''created_at'' = Some PNone
              \<and> (\<forall>i<length questions. j \<le> i \<longrightarrow>
                    map_of (history fin ! j) (fst (questions ! i))
                      = map_of initial_profile (fst (questions ! i)))"
      if j: "j \<le> length questions" for j
    proof -
      have "\<forall>k. 0 \<le> k \<and> k < j \<longrightarrow> fst (questions ! k) \<noteq> ''created_at''"
        using j field_not_created_at by simp
      from chain_field[OF ch _ j this] h0
      have c: "map_of (history fin ! j) ''created_at'' = Some PNone"
        by (simp add: initial_profile_def)
      have "map_of (history fin ! j) (fst (questions ! i))
              = map_of initial_profile (fst (questions ! i))"
        if i: "i < length questions" "j \<le> i" for i
      proof -
        have "\<forall>k. 0 \<le> k \<and> k < j \<longrightarrow> fst (questions ! k) \<noteq> fst (questions ! i)"
          using i fields_differ by simp
        from chain_field[OF ch _ j this] h0 show ?thesis by simp
      qed
      with c show ?thesis by blast
    qed
    from cs early show ?thesis by blast
  qed
  from a run_index_profile[of s v] d show ?thesis by blast
qed

theorem wizard_fields_after_validation_witness:
  "iteration False \<lparr>qidx = 1, profile = initial_profile,
        world = \<lparr>speech = [], console = [''twenty nine''], now = [], files = Map.empty\<rparr>,
        history = [initial_profile]\<rparr>
     = Some \<lparr>qidx = 1, profile = initial_profile,
        world = \<lparr>speech = [], console = [], now = [], files = Map.empty\<rparr>,
        history = [initial_profile]\<rparr>
   \<and> (\<exists>e fin. create_profile jane_session = Some (e, fin)
         \<and> qidx fin = 8 \<and> length (history fin) = 10
         \<and> map_of (history fin ! 8) ''created_at'' = Some PNone
         \<and> map_of (history fin ! 1) ''age'' = Some PNone
         \<and> map_of (profile fin) ''created_at'' = Some (PStr ''2024-01-01T00:00:00''))"
proof -
  let ?w = "\<lparr>speech = [], console = [''twenty nine''], now = [], files = Map.empty\<rparr>"
  let ?w' = "\<lparr>speech = [], console = [], now = [], files = Map.empty\<rparr>"
  let ?s = "\<lparr>qidx = 1, profile = initial_profile, world = ?w, history = [initial_profile]\<rparr>"
  have q: "questions ! qidx ?s = (''age'', ''What is your age?'', ''number'')"
    by (simp add: questions_def)
  have st: "strip ''twenty nine'' = ''twenty nine''" by code_simp
  have ac: "acquire False ''What is your age?'' (world ?s) = Some (Inr ''twenty nine'', ?w')"
    by (simp add: acquire_def get_text_input_def st)
  have bad: "validate_input ''number'' ''twenty nine'' = Inr False" by code_simp
  then have rej: "\<forall>a. Inr ''twenty nine'' = (Inr a :: error + string)
                    \<longrightarrow> validate_input ''number'' a \<noteq> Inr True" by simp
  from jane_created_at obtain e fin where cp: "create_profile jane_session = Some (e, fin)"
    by (auto simp: finished_field_def finished_profile_def split: option.splits)
  note inst = wizard_fields_after_validation[of ?s "''age''" "''What is your age?''" "''number''"
      False "Inr ''twenty nine''" ?w' jane_session e fin]
  from inst q ac rej have i: "iteration False ?s = Some (?s\<lparr>world := ?w'\<rparr>)" by blast
  from inst cp have f: "qidx fin = length questions"
    "length (history fin) = length questions + 2"
    "\<forall>j\<le>length questions.
              map_of (history fin ! j) ''created_at'' = Some PNone
              \<and> (\<forall>i<length questions. j \<le> i \<longrightarrow>
                    map_of (history fin ! j) (fst (questions ! i))
                      = map_of initial_profile (fst (questions ! i)))"
    "history fin ! Suc (length questions)
            = AList.update ''created_at'' (PStr (now jane_session)) (history fin ! length questions)"
    "profile fin = history fin ! Suc (length questions)"
    by blast+
  from f(3) have c8: "map_of (history fin ! 8) ''created_at'' = Some PNone"
    by (simp add: question_count)
  from f(3) have "map_of (history fin ! 1) (fst (questions ! 1))
                      = map_of initial_profile (fst (questions ! 1))"
    by (simp add: question_count)
  then have a1: "map_of (history fin ! 1) ''age'' = Some PNone"
    by (simp add: questions_def initial_profile_def)
  from f(4,5) have ca: "map_of (profile fin) ''created_at'' = Some (PStr ''2024-01-01T00:00:00'')"
    by (simp add: update_conv' jane_session_def)
  from f(1,2) have n: "qidx fin = 8" "length (history fin) = 10" by (simp_all add: question_count)
  have "\<exists>e fin. create_profile jane_session = Some (e, fin)
         \<and> qidx fin = 8 \<and> length (history fin) = 10
         \<and> map_of (history fin ! 8) ''created_at'' = Some PNone
         \<and> map_of (history fin ! 1) ''age'' = Some PNone
         \<and> map_of (profile fin) ''created_at'' = Some (PStr ''2024-01-01T00:00:00'')"
    using cp n c8 a1 ca by blast
  with i show ?thesis by simp
qed

lemma phone_question:
  "questions ! 3 = (''phone'', ''What is your phone number?'', ''phone'')"
  by (simp add: questions_def)

lemma store_phone:
  "store_answer ''phone'' a p0 = Inr p1 \<Longrightarrow> map_of p1 ''phone'' = Some (PStr a)"
  by (auto simp: store_answer_def update_conv')

lemma phone_prompt_plain: "normalize_transcript ''What is your phone number?'' t = t"
proof -
  have "\<not> contains (lower ''What is your phone number?'') ''age''"
    "\<not> contains (lower ''What is your phone number?'') ''email''"
    "\<not> contains (lower ''What is your phone number?'') ''skills''"
    by code_simp+
  then show ?thesis by (simp add: normalize_transcript_def)
qed

text \<open>
  Claim C3, as the code has it. In every completed session the phone field holds the answer
  to the phone question as the acquirer returned it: a line typed at the console with the
  white space at its two ends removed, or a transcript as the speech service gave it. The
  hyphens and spaces inside the answer are kept in the record. The answer passed the phone
  validation: its trimmed form, once hyphens and spaces are removed, is ten decimal digits
  (with possibly one final line feed, which \<^verbatim>\<open>$\<close> lets through).
\<close>

theorem phone_kept_as_answered:
  assumes "create_profile w = Some (e, fin)"
  shows "\<exists>a u u'. later w u
            \<and> acquire (startswith (lower (hd (console w))) ''y'') ''What is your phone number?'' u
                = Some (Inr a, u')
            \<and> ((\<exists>l \<in> set (console w). a = strip l) \<or> Inr a \<in> set (speech w))
            \<and> map_of (profile fin) ''phone'' = Some (PStr a)
            \<and> validate_input ''phone'' a = Inr True
            \<and> (let t = filter (\<lambda>c. c \<noteq> CHR '' '') (filter (\<lambda>c. c \<noteq> CHR ''-'') (strip a))
               in ten_digits t \<or> (t \<noteq> [] \<and> last t = CHR 0x0A \<and> ten_digits (butlast t)))"
proof -
  let ?v = "startswith (lower (hd (console w))) ''y''"
  let ?h = "history fin"
  note cs = completed_session[OF assms]
  from cs have ch: "\<forall>j<length questions. accepted ?v w j (?h ! j) (?h ! Suc j)"
    and stamp: "?h ! Suc (length questions)
             = AList.update ''created_at'' (PStr (now w)) (?h ! length questions)"
    and pf: "profile fin = ?h ! Suc (length questions)" by simp_all
  have "3 < length questions" by (simp add: question_count)
  with ch have "accepted ?v w 3 (?h ! 3) (?h ! Suc 3)" by blast
  then obtain a u u' where lu: "later w u"
    and ac: "acquire ?v ''What is your phone number?'' u = Some (Inr a, u')"
    and va: "validate_input ''phone'' a = Inr True"
    and st: "store_answer ''phone'' a (?h ! 3) = Inr (?h ! Suc 3)"
    by (auto simp: accepted_def phone_question)
  from store_phone[OF st] have p4: "map_of (?h ! 4) ''phone'' = Some (PStr a)" by simp
  have "\<forall>k. 4 \<le> k \<and> k < length questions \<longrightarrow> fst (questions ! k) \<noteq> ''phone''"
  proof (intro allI impI)
    fix k assume k: "4 \<le> k \<and> k < length questions"
    then have "fst (questions ! k) \<noteq> fst (questions ! 3)"
      by (intro fields_differ) (simp_all add: question_count)
    then show "fst (questions ! k) \<noteq> ''phone''" by (simp add: phone_question)
  qed
  then have "map_of (?h ! length questions) ''phone'' = map_of (?h ! 4) ''phone''"
    by (intro chain_field[OF ch]) (simp_all add: question_count)
  with p4 have "map_of (?h ! length questions) ''phone'' = Some (PStr a)" by simp
  with stamp pf have ph: "map_of (profile fin) ''phone'' = Some (PStr a)"
    by (simp add: update_conv')
  from acquire_source[OF ac] later_sets[OF lu]
  have src: "(\<exists>l \<in> set (console w). a = strip l) \<or> Inr a \<in> set (speech w)"
    by (auto simp: phone_prompt_plain)
  from va have sh: "let t = filter (\<lambda>c. c \<noteq> CHR '' '') (filter (\<lambda>c. c \<noteq> CHR ''-'') (strip a))
               in ten_digits t \<or> (t \<noteq> [] \<and> last t = CHR 0x0A \<and> ten_digits (butlast t))"
    by (simp add: validate_phone_eq)
  show ?thesis
    by (rule exI[of _ a], rule exI[of _ u], rule exI[of _ u']) (intro conjI lu ac src ph va sh)
qed

theorem phone_kept_as_answered_witness:
  "\<exists>e fin. create_profile jane_session = Some (e, fin)
      \<and> map_of (profile fin) ''phone'' = Some (PStr ''555-123-4567'')
      \<and> ''555-123-4567'' \<in> strip ` set (console jane_session)
      \<and> validate_input ''phone'' ''555-123-4567'' = Inr True"
proof -
  from jane_created_at obtain e fin where cp: "create_profile jane_session = Some (e, fin)"
    by (auto simp: finished_field_def finished_profile_def split: option.splits)
  have fp: "finished_field ''phone'' jane_session = Some (PStr ''555-123-4567'')" by code_simp
  with cp have p: "map_of (profile fin) ''phone'' = Some (PStr ''555-123-4567'')"
    by (simp add: finished_field_def finished_profile_def)
  have sp: "speech jane_session = []" by (simp add: jane_session_def)
  from phone_kept_as_answered[OF cp] p sp
  have "(\<exists>l \<in> set (console jane_session). ''555-123-4567'' = strip l)
        \<and> validate_input ''phone'' ''555-123-4567'' = Inr True"
    by auto
  with cp p show ?thesis by blast
qed

text \<open>
  The phone field is not always ten digits: the session that answers \<^verbatim>\<open>555-123-4567\<close> stores these twelve
  characters, two of them hyphens.
\<close>

theorem phone_hyphens_counterexample:
  "finished_field ''phone'' jane_session = Some (PStr ''555-123-4567'')
   \<and> length ''555-123-4567'' = 12 \<and> \<not> list_all isdigit ''555-123-4567''"
  by code_simp

section \<open>Record store: saving\<close>












section \<open>Text normalizer: skills\<close>


lemma set_replace_from: "set (replace_from old new s) \<subseteq> set s \<union> set new"
proof (induction old new s rule: replace_from.induct)
  case (1 old new)
  show ?case by simp
next
  case (2 old new c cs)
  show ?case
  proof (cases "old \<noteq> [] \<and> startswith (c # cs) old")
    case True
    with 2 have "set (replace_from old new (drop (length old) (c # cs)))
        \<subseteq> set (drop (length old) (c # cs)) \<union> set new" by blast
    moreover have "set (drop (length old) (c # cs)) \<subseteq> set (c # cs)" by (rule set_drop_subset)
    ultimately have "set (new @ replace_from old new (drop (length old) (c # cs)))
        \<subseteq> set (c # cs) \<union> set new" by auto
    with True show ?thesis by simp
  next
    case False
    with 2 have "set (replace_from old new cs) \<subseteq> set cs \<union> set new" by blast
    with False show ?thesis by auto
  qed
qed

lemma replace_from_absent:
  "old \<noteq> [] \<Longrightarrow> \<not> contains s old \<Longrightarrow> replace_from old new s = s"
  by (induction s) auto

lemma split_char_items: "w \<in> set (split_char sep s) \<Longrightarrow> set w \<subseteq> set s \<and> sep \<notin> set w"
proof (induction s arbitrary: w)
  case Nil
  then show ?case by simp
next
  case (Cons c cs)
  show ?case
  proof (cases "c = sep")
    case True
    with Cons.prems have "w = [] \<or> w \<in> set (split_char sep cs)" by simp
    then show ?thesis
    proof
      assume "w = []"
      then show ?thesis by simp
    next
      assume "w \<in> set (split_char sep cs)"
      from Cons.IH[OF this] show ?thesis by auto
    qed
  next
    case False
    obtain v vs where sp: "split_char sep cs = v # vs"
      using split_char_nonempty[of sep cs] by (cases "split_char sep cs") auto
    with False Cons.prems have "w = c # v \<or> w \<in> set vs" by simp
    then show ?thesis
    proof
      assume w: "w = c # v"
      from sp have "v \<in> set (split_char sep cs)" by simp
      from Cons.IH[OF this] have "set v \<subseteq> set cs" "sep \<notin> set v" by simp_all
      with w False show ?thesis by auto
    next
      assume "w \<in> set vs"
      with sp have "w \<in> set (split_char sep cs)" by simp
      from Cons.IH[OF this] show ?thesis by auto
    qed
  qed
qed

lemma set_join: "set (join sep xs) \<subseteq> set sep \<union> \<Union> (set ` set xs)"
  by (induction sep xs rule: join.induct) auto

lemma split_char_append:
  "sep \<notin> set a \<Longrightarrow> split_char sep (a @ sep # b) = a # split_char sep b"
  by (induction a) auto

lemma strip_space_Cons: "strip (CHR '' '' # s) = strip s"
  by (simp add: strip_def isspace_def)

lemma strip_split_space:
  "map strip (split_char CHR '','' (CHR '' '' # s)) = map strip (split_char CHR '','' s)"
proof -
  obtain v vs where sp: "split_char CHR '','' s = v # vs"
    using split_char_nonempty[of "CHR '',''" s] by (cases "split_char CHR '','' s") auto
  then show ?thesis by (simp add: strip_space_Cons)
qed

lemma resplit_join:
  assumes "xs \<noteq> []" and "\<forall>x \<in> set xs. CHR '','' \<notin> set x"
  shows "map strip (split_char CHR '','' (join '', '' xs)) = map strip xs"
  using assms
proof (induction "'', ''" xs rule: join.induct)
  case 1
  then show ?case by simp
next
  case (2 x)
  then show ?case by (simp add: split_char_no_sep)
next
  case (3 x y ys)
  from 3 have IH: "map strip (split_char CHR '','' (join '', '' (y # ys))) = map strip (y # ys)"
    by simp
  from "3.prems" have nx: "CHR '','' \<notin> set x" by simp
  have "join '', '' (x # y # ys) = x @ CHR '','' # (CHR '' '' # join '', '' (y # ys))"
    by simp
  then have "map strip (split_char CHR '','' (join '', '' (x # y # ys)))
      = strip x # map strip (split_char CHR '','' (CHR '' '' # join '', '' (y # ys)))"
    by (simp only: split_char_append[OF nx] list.map)
  also have "\<dots> = strip x # map strip (y # ys)"
    by (simp only: strip_split_space IH)
  finally show ?case by simp
qed

lemma canonical_fixed:
  "join '', '' (map strip (split_char CHR '','' (join '', '' (map strip (split_char CHR '','' s)))))
     = join '', '' (map strip (split_char CHR '','' s))"
proof -
  let ?xs = "map strip (split_char CHR '','' s)"
  have ne: "?xs \<noteq> []" by (simp add: split_char_nonempty)
  have nc: "\<forall>x \<in> set ?xs. CHR '','' \<notin> set x"
  proof
    fix x assume "x \<in> set ?xs"
    then obtain w where w: "w \<in> set (split_char CHR '','' s)" and x: "x = strip w" by auto
    from split_char_items[OF w] have "CHR '','' \<notin> set w" by simp
    with set_strip[of w] x show "CHR '','' \<notin> set x" by auto
  qed
  have "map strip (split_char CHR '','' (join '', '' ?xs)) = map strip ?xs"
    by (rule resplit_join[OF ne nc])
  also have "\<dots> = ?xs" by (simp add: strip_idem)
  finally show ?thesis by simp
qed

lemma lower_fixed: "(\<forall>c \<in> set s. lower_char c = c) \<Longrightarrow> lower s = s"
  by (simp add: lower_def map_idI)

lemma normalize_skills_lower: "lower (normalize_skills x) = normalize_skills x"
proof (rule lower_fixed, rule ballI)
  fix c assume c: "c \<in> set (normalize_skills x)"
  let ?a = "lower x"
  let ?b = "replace_from '' and '' '', '' ?a"
  let ?z = "replace_from '' comma '' '', '' ?b"
  have n: "normalize_skills x = join '', '' (map strip (split_char CHR '','' ?z))"
    by (simp add: normalize_skills_def replace_def)
  have "set (normalize_skills x) \<subseteq> set '', '' \<union> \<Union> (set ` set (map strip (split_char CHR '','' ?z)))"
    unfolding n by (rule set_join)
  also have "\<dots> \<subseteq> set '', '' \<union> set ?z"
    using split_char_items[of _ "CHR '',''" ?z] set_strip by fastforce
  also have "\<dots> \<subseteq> set '', '' \<union> set ?b"
    using set_replace_from[of "'' comma ''" "'', ''" ?b] by auto
  also have "\<dots> \<subseteq> set '', '' \<union> set ?a"
    using set_replace_from[of "'' and ''" "'', ''" ?a] by auto
  finally have "c \<in> set '', '' \<union> set ?a" using c by blast
  then show "lower_char c = c"
  proof
    assume "c \<in> set '', ''"
    then have "c = CHR '','' \<or> c = CHR '' ''" by simp
    then show ?thesis by (auto simp: lower_char_def)
  next
    assume "c \<in> set ?a"
    then show ?thesis by (auto simp: lower_def lower_char_idem)
  qed
qed

lemma length_split_char: "length (split_char sep s) = Suc (count_list s sep)"
proof (induction s)
  case Nil
  show ?case by simp
next
  case (Cons c cs)
  obtain v vs where sp: "split_char sep cs = v # vs"
    using split_char_nonempty[of sep cs] by (cases "split_char sep cs") auto
  with Cons show ?case by auto
qed

lemma count_join:
  assumes "xs \<noteq> []" and "\<forall>x \<in> set xs. CHR '','' \<notin> set x"
  shows "count_list (join '', '' xs) CHR '','' = length xs - 1"
  using assms
proof (induction "'', ''" xs rule: join.induct)
  case 1
  then show ?case by simp
next
  case (2 x)
  then show ?case by (simp add: count_list_0_iff)
next
  case (3 x y ys)
  then have IH: "count_list (join '', '' (y # ys)) CHR '','' = length (y # ys) - 1" by simp
  from "3.prems" have "count_list x CHR '','' = 0" by (simp add: count_list_0_iff)
  with IH show ?case by simp
qed

lemma count_canonical:
  "count_list (join '', '' (map strip (split_char CHR '','' s))) CHR '','' = count_list s CHR '',''"
proof -
  let ?xs = "map strip (split_char CHR '','' s)"
  have ne: "?xs \<noteq> []" by (simp add: split_char_nonempty)
  have nc: "\<forall>x \<in> set ?xs. CHR '','' \<notin> set x"
  proof
    fix x assume "x \<in> set ?xs"
    then obtain w where w: "w \<in> set (split_char CHR '','' s)" and x: "x = strip w" by auto
    from split_char_items[OF w] have "CHR '','' \<notin> set w" by simp
    with set_strip[of w] x show "CHR '','' \<notin> set x" by auto
  qed
  from count_join[OF ne nc] show ?thesis by (simp add: length_split_char)
qed

lemma count_startswith:
  assumes "startswith s old" and "c \<notin> set old"
  shows "count_list s c = count_list (drop (length old) s) c"
proof -
  from assms(1) have "s = old @ drop (length old) s"
    by (metis append_take_drop_id startswith_def)
  then have "count_list s c = count_list old c + count_list (drop (length old) s) c"
    by (metis count_list_append)
  with assms(2) show ?thesis by (simp add: count_list_0_iff)
qed

lemma count_replace_le:
  "c \<notin> set old \<Longrightarrow> count_list s c \<le> count_list (replace_from old new s) c"
proof (induction old new s rule: replace_from.induct)
  case (1 old new)
  show ?case by simp
next
  case (2 old new x xs)
  show ?case
  proof (cases "old \<noteq> [] \<and> startswith (x # xs) old")
    case True
    with 2 have "count_list (drop (length old) (x # xs)) c
        \<le> count_list (replace_from old new (drop (length old) (x # xs))) c" by blast
    moreover from True "2.prems"
    have "count_list (x # xs) c = count_list (drop (length old) (x # xs)) c"
      by (intro count_startswith) simp_all
    moreover from True have "replace_from old new (x # xs)
        = new @ replace_from old new (drop (length old) (x # xs))" by simp
    ultimately show ?thesis by simp
  next
    case False
    with 2 have "count_list xs c \<le> count_list (replace_from old new xs) c" by blast
    moreover from False have "replace_from old new (x # xs) = x # replace_from old new xs"
      by auto
    ultimately show ?thesis by simp
  qed
qed

lemma count_replace_less:
  "old \<noteq> [] \<Longrightarrow> c \<notin> set old \<Longrightarrow> c \<in> set new \<Longrightarrow> contains s old
     \<Longrightarrow> count_list s c < count_list (replace_from old new s) c"
proof (induction s rule: length_induct)
  case (1 s)
  show ?case
  proof (cases s)
    case Nil
    with "1.prems" show ?thesis by simp
  next
    case (Cons x xs)
    show ?thesis
    proof (cases "startswith (x # xs) old")
      case True
      from "1.prems"(3) have "0 < count_list new c"
        using count_list_0_iff[of new c] by auto
      moreover have "count_list (drop (length old) (x # xs)) c
          \<le> count_list (replace_from old new (drop (length old) (x # xs))) c"
        using "1.prems"(2) by (rule count_replace_le)
      moreover from True "1.prems"(2)
      have "count_list (x # xs) c = count_list (drop (length old) (x # xs)) c"
        by (rule count_startswith)
      moreover from True "1.prems"(1) have "replace_from old new (x # xs)
          = new @ replace_from old new (drop (length old) (x # xs))" by simp
      ultimately show ?thesis using Cons by simp
    next
      case False
      with "1.prems"(4) Cons have c: "contains xs old" by simp
      from Cons have "length xs < length s" by simp
      with "1.IH" "1.prems"(1-3) c
      have "count_list xs c < count_list (replace_from old new xs) c" by blast
      moreover from False have "replace_from old new (x # xs) = x # replace_from old new xs"
        by auto
      ultimately show ?thesis using Cons by simp
    qed
  qed
qed

lemma skills_changed:
  assumes "contains (normalize_skills x) '' and '' \<or> contains (normalize_skills x) '' comma ''"
  shows "normalize_skills (normalize_skills x) \<noteq> normalize_skills x"
proof -
  let ?y = "normalize_skills x"
  let ?r1 = "replace_from '' and '' '', '' ?y"
  let ?r2 = "replace_from '' comma '' '', '' ?r1"
  have n: "normalize_skills ?y = join '', '' (map strip (split_char CHR '','' ?r2))"
    by (simp add: normalize_skills_def[of ?y] replace_def normalize_skills_lower)
  have le1: "count_list ?y CHR '','' \<le> count_list ?r1 CHR '',''"
    by (rule count_replace_le) simp
  have le2: "count_list ?r1 CHR '','' \<le> count_list ?r2 CHR '',''"
    by (rule count_replace_le) simp
  have "count_list ?y CHR '','' < count_list ?r2 CHR '',''"
  proof (cases "contains ?y '' and ''")
    case True
    have "count_list ?y CHR '','' < count_list ?r1 CHR '',''"
      by (rule count_replace_less[OF _ _ _ True]) simp_all
    with le2 show ?thesis by simp
  next
    case False
    then have r1: "?r1 = ?y" by (simp add: replace_from_absent)
    from False assms have "contains ?y '' comma ''" by simp
    then have "count_list ?y CHR '','' < count_list (replace_from '' comma '' '', '' ?y) CHR '',''"
      by (intro count_replace_less) simp_all
    with r1 show ?thesis by simp
  qed
  then have "count_list ?y CHR '','' < count_list (normalize_skills ?y) CHR '',''"
    by (simp add: n count_canonical)
  then show ?thesis by auto
qed

text \<open>
  Claim C2, as the code has it. The last stage of the skills normalizer, which splits on
  commas, trims each item and joins the items with a comma and a space, maps every string to
  a fixed point of that stage. The whole normalizer applied to its own result gives that
  result again exactly when the result contains neither \<^verbatim>\<open>' and '\<close> nor \<^verbatim>\<open>' comma '\<close>:
  otherwise the second application puts in a further comma. It is not idempotent on every
  input.
\<close>

theorem skills_canonical_form:
  "join '', '' (map strip (split_char CHR '','' (join '', '' (map strip (split_char CHR '','' s)))))
     = join '', '' (map strip (split_char CHR '','' s))
   \<and> (normalize_skills (normalize_skills x) = normalize_skills x
        \<longleftrightarrow> \<not> contains (normalize_skills x) '' and ''
            \<and> \<not> contains (normalize_skills x) '' comma '')"
proof -
  have b: "normalize_skills (normalize_skills x) = normalize_skills x"
    if h: "\<not> contains (normalize_skills x) '' and '' \<and> \<not> contains (normalize_skills x) '' comma ''"
  proof -
    let ?y = "normalize_skills x"
    obtain z where y: "?y = join '', '' (map strip (split_char CHR '','' z))"
      by (simp add: normalize_skills_def Let_def)
    from h have r1: "replace_from '' and '' '', '' ?y = ?y"
      by (simp add: replace_from_absent)
    from h have r2: "replace_from '' comma '' '', '' ?y = ?y"
      by (simp add: replace_from_absent)
    have "normalize_skills ?y = join '', '' (map strip (split_char CHR '','' ?y))"
      by (simp add: normalize_skills_def[of ?y] replace_def normalize_skills_lower r1 r2)
    also have "\<dots> = ?y"
      unfolding y by (rule canonical_fixed)
    finally show ?thesis .
  qed
  have c: "\<not> contains (normalize_skills x) '' and '' \<and> \<not> contains (normalize_skills x) '' comma ''"
    if "normalize_skills (normalize_skills x) = normalize_skills x"
    using that skills_changed[of x] by blast
  from canonical_fixed[of s] b c show ?thesis by blast
qed

theorem skills_canonical_form_witness:
  "normalize_skills ''Python and Go comma  Rust'' = ''python, go, rust''
   \<and> \<not> contains ''python, go, rust'' '' and '' \<and> \<not> contains ''python, go, rust'' '' comma ''
   \<and> normalize_skills ''python, go, rust'' = ''python, go, rust''"
proof -
  have n: "normalize_skills ''Python and Go comma  Rust'' = ''python, go, rust''" by code_simp
  have c: "\<not> contains ''python, go, rust'' '' and ''"
    "\<not> contains ''python, go, rust'' '' comma ''" by code_simp+
  from skills_canonical_form[of "[]" "''Python and Go comma  Rust''", unfolded n] c
  have "normalize_skills ''python, go, rust'' = ''python, go, rust''" by blast
  with n c show ?thesis by simp
qed

text \<open>
  A transcript on which the second application changes the result: the second \<^verbatim>\<open>and\<close>
  has lost its leading space to the first replacement and is replaced only the next time.
\<close>

theorem skills_not_idempotent_counterexample:
  "normalize_skills ''a and and b'' = ''a, and b''
   \<and> normalize_skills (normalize_skills ''a and and b'') = ''a, , b''
   \<and> normalize_skills (normalize_skills ''a and and b'') \<noteq> normalize_skills ''a and and b''"
  by code_simp

end
